theory Spec2Isabelle
  imports Complex_Main "HOL-Library.Word"
begin

section \<open>Data model\<close>

text \<open>
  A JavaScript string is a sequence of 16-bit code units; \<open>s.length\<close> counts code units
  and \<open>s[k]\<close> reads one of them.
\<close>

type_synonym char16 = "16 word"
type_synonym jsstring = "char16 list"

text \<open>\<open>enum DiffType { DELETE = -1, INSERT = 1, EQUAL = 0 }\<close> and \<open>type Diff = [DiffType, string]\<close>.\<close>

datatype DiffType = DELETE | INSERT | EQUAL

type_synonym Diff = "DiffType \<times> jsstring"

text \<open>
  At run time the first component of a diff tuple is a number; the \<open>default\<close> branches of
  the \<open>switch\<close> statements in \<open>levenshtein\<close> and \<open>toDelta\<close> see every number that is none
  of the three enum values. A raw diff keeps that number.
\<close>

type_synonym RawDiff = "int \<times> jsstring"

fun DiffType_value :: "DiffType \<Rightarrow> int" where
  "DiffType_value DELETE = -1"
| "DiffType_value INSERT = 1"
| "DiffType_value EQUAL = 0"

definition raw :: "Diff \<Rightarrow> RawDiff" where
  "raw d = (DiffType_value (fst d), snd d)"

datatype error =
    NullInput             \<comment> \<open>\<open>Error('Null input. (diff)')\<close>\<close>
  | UnknownDiffOperation  \<comment> \<open>\<open>Error('Unknown diff operation.')\<close>\<close>
  | UnknownDiffType int   \<comment> \<open>\<open>Error(`Unknown diff type: ${diffType}`)\<close>\<close>
  | URIError              \<comment> \<open>raised by the built-in \<open>encodeURI\<close>\<close>
  | TypeError             \<comment> \<open>raised by reading a property of \<open>undefined\<close>\<close>

definition bind :: "error + 'a \<Rightarrow> ('a \<Rightarrow> error + 'b) \<Rightarrow> error + 'b" where
  "bind m f = (case m of Inl e \<Rightarrow> Inl e | Inr x \<Rightarrow> f x)"

section \<open>The JavaScript operations the sources use\<close>

subsection \<open>Strings\<close>

text \<open>\<open>s[k]\<close> is \<open>undefined\<close> (here \<open>None\<close>) outside the string.\<close>

definition char_at :: "jsstring \<Rightarrow> int \<Rightarrow> char16 option" where
  "char_at s k = (if 0 \<le> k \<and> k < int (length s) then Some (s ! nat k) else None)"

text \<open>
  \<open>s.substring(a, b)\<close> clamps both arguments to \<open>[0, s.length]\<close> and swaps them when the
  first is the larger; \<open>s.substring(a)\<close> runs to the end of the string.
\<close>

definition substring :: "jsstring \<Rightarrow> int \<Rightarrow> int \<Rightarrow> jsstring" where
  "substring s a b =
     (let len = int (length s);
          a' = min (max a 0) len;
          b' = min (max b 0) len;
          from = min a' b';
          to = max a' b'
      in take (nat (to - from)) (drop (nat from) s))"

definition substring_from :: "jsstring \<Rightarrow> int \<Rightarrow> jsstring" where
  "substring_from s a = substring s a (int (length s))"

text \<open>The string \<open>"undefined"\<close>, which \<open>+\<close> appends for an \<open>undefined\<close> operand.\<close>

definition undefined_text :: jsstring where
  "undefined_text = [0x75, 0x6E, 0x64, 0x65, 0x66, 0x69, 0x6E, 0x65, 0x64]"

fun char_text :: "char16 option \<Rightarrow> jsstring" where
  "char_text None = undefined_text"
| "char_text (Some c) = [c]"

text \<open>A length printed in a template literal: its decimal digits.\<close>

definition decimal_digit :: "nat \<Rightarrow> char16" where
  "decimal_digit d = [0x30, 0x31, 0x32, 0x33, 0x34, 0x35, 0x36, 0x37, 0x38, 0x39] ! d"

function decimal :: "nat \<Rightarrow> jsstring" where
  "decimal n =
     (if n < 10 then [decimal_digit n] else decimal (n div 10) @ [decimal_digit (n mod 10)])"
  by pat_completeness auto
termination
  by (relation "measure (\<lambda>n. n)") auto

declare decimal.simps [simp del]

text \<open>\<open>parts.join(sep)\<close>.\<close>

fun join :: "jsstring \<Rightarrow> jsstring list \<Rightarrow> jsstring" where
  "join sep [] = []"
| "join sep [x] = x"
| "join sep (x # y # ys) = x @ sep @ join sep (y # ys)"

text \<open>
  \<open>s.replace(/%20/g, ' ')\<close>: the matches of \<open>%20\<close> found from left to right, none
  overlapping an earlier one, each replaced by a space.
\<close>

fun replace_pct20 :: "jsstring \<Rightarrow> jsstring" where
  "replace_pct20 [] = []"
| "replace_pct20 (c # cs) =
     (if c = 0x25 \<and> take 2 cs = [0x32, 0x30] then 0x20 # replace_pct20 (drop 2 cs)
      else c # replace_pct20 cs)"

subsection \<open>Arrays\<close>

text \<open>
  \<open>xs.splice(start, 0, x)\<close> inserts \<open>x\<close> before position \<open>start\<close>; a negative \<open>start\<close>
  counts from the end of the array and a position past an end is clamped to that end.
  \<open>xs.splice(k, 1)\<close> removes the element at \<open>k\<close>.
\<close>

definition splice_insert :: "'a list \<Rightarrow> int \<Rightarrow> 'a \<Rightarrow> 'a list" where
  "splice_insert xs start x =
     (let len = int (length xs);
          k = (if start < 0 then max (len + start) 0 else min start len)
      in take (nat k) xs @ x # drop (nat k) xs)"

definition splice_delete :: "'a list \<Rightarrow> nat \<Rightarrow> 'a list" where
  "splice_delete xs k = take k xs @ drop (k + 1) xs"

text \<open>
  \<open>diffs[k][1]\<close> read and assigned. Where \<open>diffs[k]\<close> is \<open>undefined\<close>, reading its
  component raises a TypeError.
\<close>

definition get_text :: "Diff list \<Rightarrow> nat \<Rightarrow> error + jsstring" where
  "get_text ds k = (if k < length ds then Inr (snd (ds ! k)) else Inl TypeError)"

definition set_text :: "Diff list \<Rightarrow> nat \<Rightarrow> jsstring \<Rightarrow> error + Diff list" where
  "set_text ds k t = (if k < length ds then Inr (ds[k := (fst (ds ! k), t)]) else Inl TypeError)"

subsection \<open>Numbers\<close>

text \<open>
  The numbers of \<open>createDeadLine\<close>: doubles, taken here as reals without rounding, with
  \<open>+Infinity\<close> for a result above \<open>Number.MAX_VALUE\<close> (the largest finite double).
\<close>

datatype jsnum = Num real | PosInfinity

definition Number_MAX_VALUE :: real where
  "Number_MAX_VALUE = (2 ^ 53 - 1) * 2 ^ 971"

fun js_mul :: "jsnum \<Rightarrow> jsnum \<Rightarrow> jsnum" where
  "js_mul (Num a) (Num b) = (if Number_MAX_VALUE < a * b then PosInfinity else Num (a * b))"
| "js_mul a b = PosInfinity"

fun js_add :: "jsnum \<Rightarrow> jsnum \<Rightarrow> jsnum" where
  "js_add (Num a) (Num b) = (if Number_MAX_VALUE < a + b then PosInfinity else Num (a + b))"
| "js_add a b = PosInfinity"

subsection \<open>encodeURI\<close>

text \<open>
  The built-in \<open>encodeURI\<close> (ECMA-262, Encode): the letters, the digits and
  \<open>- _ . ! ~ * ' ( )\<close>, \<open>; / ? : @ & = + $ ,\<close> and \<open>#\<close> stay; every other code point
  becomes the \<open>%XX\<close> escapes of its UTF-8 octets; a surrogate code unit that is not half
  of a pair raises a URIError.
\<close>

definition uri_unescaped :: "char16 \<Rightarrow> bool" where
  "uri_unescaped c =
     (let n = unat c in
        (0x41 \<le> n \<and> n \<le> 0x5A) \<or> (0x61 \<le> n \<and> n \<le> 0x7A) \<or> (0x30 \<le> n \<and> n \<le> 0x39)
        \<or> n \<in> set [0x2D, 0x5F, 0x2E, 0x21, 0x7E, 0x2A, 0x27, 0x28, 0x29]
        \<or> n \<in> set [0x3B, 0x2F, 0x3F, 0x3A, 0x40, 0x26, 0x3D, 0x2B, 0x24, 0x2C]
        \<or> n = 0x23)"

definition hex_digit :: "nat \<Rightarrow> char16" where
  "hex_digit d = [0x30, 0x31, 0x32, 0x33, 0x34, 0x35, 0x36, 0x37, 0x38, 0x39,
                  0x41, 0x42, 0x43, 0x44, 0x45, 0x46] ! d"

definition percent_octet :: "nat \<Rightarrow> jsstring" where
  "percent_octet b = [0x25, hex_digit (b div 16), hex_digit (b mod 16)]"

definition utf8_octets :: "nat \<Rightarrow> nat list" where
  "utf8_octets v =
     (if v < 0x80 then [v]
      else if v < 0x800 then [0xC0 + v div 64, 0x80 + v mod 64]
      else if v < 0x10000 then [0xE0 + v div 4096, 0x80 + (v div 64) mod 64, 0x80 + v mod 64]
      else [0xF0 + v div 262144, 0x80 + (v div 4096) mod 64, 0x80 + (v div 64) mod 64,
            0x80 + v mod 64])"

definition percent_code_point :: "nat \<Rightarrow> jsstring" where
  "percent_code_point v = concat (map percent_octet (utf8_octets v))"

section \<open>utils/surrogatePairs\<close>

text \<open>
  Modelled from the spec: \<open>isHighSurrogate\<close> and \<open>isLowSurrogate\<close> of
  \<open>utils/surrogatePairs.js\<close>, which \<open>diff.ts\<close> imports and the sources do not hold. The
  spec's glossary calls a surrogate pair the two 16-bit code units encoding one
  supplementary-plane character: the first lies in D800..DBFF, the second in DC00..DFFF.
\<close>

definition isHighSurrogate :: "char16 \<Rightarrow> bool" where
  "isHighSurrogate c = (0xD800 \<le> unat c \<and> unat c \<le> 0xDBFF)"

definition isLowSurrogate :: "char16 \<Rightarrow> bool" where
  "isLowSurrogate c = (0xDC00 \<le> unat c \<and> unat c \<le> 0xDFFF)"

fun encodeURI :: "jsstring \<Rightarrow> error + jsstring" where
  "encodeURI [] = Inr []"
| "encodeURI (c # cs) =
     (if uri_unescaped c then
        (case encodeURI cs of Inl e \<Rightarrow> Inl e | Inr r \<Rightarrow> Inr (c # r))
      else if isLowSurrogate c then Inl URIError
      else if \<not> isHighSurrogate c then
        (case encodeURI cs of Inl e \<Rightarrow> Inl e | Inr r \<Rightarrow> Inr (percent_code_point (unat c) @ r))
      else
        (case cs of
           [] \<Rightarrow> Inl URIError
         | k # ks \<Rightarrow>
             if \<not> isLowSurrogate k then Inl URIError
             else
               (case encodeURI ks of
                  Inl e \<Rightarrow> Inl e
                | Inr r \<Rightarrow>
                    Inr (percent_code_point
                           ((unat c - 0xD800) * 0x400 + (unat k - 0xDC00) + 0x10000) @ r))))"

section \<open>diff/diff.ts\<close>

subsection \<open>Options and the deadline\<close>

text \<open>
  \<open>Partial<DiffOptions>\<close>: either field may be absent. \<open>Date.now()\<close> is the parameter
  \<open>now\<close>, in milliseconds.
\<close>

record DiffOptions =
  opt_checkLines :: "bool option"
  opt_timeout :: "real option"

record InternalDiffOptions =
  checkLines :: bool
  deadline :: jsnum

definition createDeadLine :: "real \<Rightarrow> real option \<Rightarrow> jsnum" where
  "createDeadLine now timeout =
     (let t = (case timeout of
                 None \<Rightarrow> 1
               | Some x \<Rightarrow> if x \<le> 0 then Number_MAX_VALUE else x)
      in js_add (Num now) (js_mul (Num t) (Num 1000)))"

text \<open>
  \<open>opts.timeout || 1.0\<close> is \<open>1.0\<close> when the timeout is absent and when it is \<open>0\<close>; the
  spread \<open>...opts\<close> then overrides \<open>checkLines\<close> where \<open>opts\<close> has it.
\<close>

definition createInternalOpts :: "real \<Rightarrow> DiffOptions \<Rightarrow> InternalDiffOptions" where
  "createInternalOpts now opts =
     \<lparr> checkLines = (case opt_checkLines opts of None \<Rightarrow> True | Some b \<Rightarrow> b),
       deadline = createDeadLine now
         (Some (case opt_timeout opts of None \<Rightarrow> 1 | Some x \<Rightarrow> if x = 0 then 1 else x)) \<rparr>"

subsection \<open>Moving one character between entries\<close>

text \<open>The parameter \<open>dir: 1 | -1\<close>.\<close>

datatype dir = Forward | Backward

fun dir_value :: "dir \<Rightarrow> int" where
  "dir_value Forward = 1"
| "dir_value Backward = -1"

fun inv :: "dir \<Rightarrow> dir" where
  "inv Forward = Backward"
| "inv Backward = Forward"

definition combineChar :: "jsstring \<Rightarrow> char16 option \<Rightarrow> dir \<Rightarrow> jsstring" where
  "combineChar data char dir =
     (if dir = Forward then data @ char_text char else char_text char @ data)"

definition splitChar :: "jsstring \<Rightarrow> dir \<Rightarrow> jsstring \<times> char16 option" where
  "splitChar data dir =
     (if dir = Forward
      then (substring data 0 (int (length data) - 1), char_at data (int (length data) - 1))
      else (substring_from data 1, char_at data 0))"

definition hasSharedChar :: "Diff list \<Rightarrow> nat \<Rightarrow> nat \<Rightarrow> dir \<Rightarrow> error + bool" where
  "hasSharedChar ds i j dir =
     bind (get_text ds i) (\<lambda>ti. bind (get_text ds j) (\<lambda>tj.
       Inr (if dir = Forward
            then char_at ti (int (length ti) - 1) = char_at tj (int (length tj) - 1)
            else char_at ti 0 = char_at tj 0)))"

section \<open>levenshtein\<close>

text \<open>
  The \<open>for\<close> loop of \<open>levenshtein\<close>, as a recursion over the entries still to visit; the
  three accumulators are the loop's variables. The cases are in the order of the \<open>switch\<close>.
\<close>

fun levenshtein_loop :: "RawDiff list \<Rightarrow> int \<Rightarrow> int \<Rightarrow> int \<Rightarrow> error + int" where
  "levenshtein_loop [] leven insertions deletions = Inr (leven + max insertions deletions)"
| "levenshtein_loop ((op, data) # rest) leven insertions deletions =
     (if op = DiffType_value INSERT then
        levenshtein_loop rest leven (insertions + int (length data)) deletions
      else if op = DiffType_value DELETE then
        levenshtein_loop rest leven insertions (deletions + int (length data))
      else if op = DiffType_value EQUAL then
        levenshtein_loop rest (leven + max insertions deletions) 0 0
      else Inl UnknownDiffOperation)"

definition levenshtein :: "RawDiff list \<Rightarrow> error + int" where
  "levenshtein ds = levenshtein_loop ds 0 0 0"

section \<open>toDelta\<close>

text \<open>The loop that fills the array \<open>text\<close>; an exception ends it.\<close>

fun toDelta_loop :: "RawDiff list \<Rightarrow> error + jsstring list" where
  "toDelta_loop [] = Inr []"
| "toDelta_loop ((diffType, diff) # rest) =
     (if diffType = DiffType_value INSERT then
        (case encodeURI diff of
           Inl e \<Rightarrow> Inl e
         | Inr enc \<Rightarrow>
             (case toDelta_loop rest of Inl e \<Rightarrow> Inl e | Inr text \<Rightarrow> Inr ((0x2B # enc) # text)))
      else if diffType = DiffType_value DELETE then
        (case toDelta_loop rest of
           Inl e \<Rightarrow> Inl e
         | Inr text \<Rightarrow> Inr ((0x2D # decimal (length diff)) # text))
      else if diffType = DiffType_value EQUAL then
        (case toDelta_loop rest of
           Inl e \<Rightarrow> Inl e
         | Inr text \<Rightarrow> Inr ((0x3D # decimal (length diff)) # text))
      else Inl (UnknownDiffType diffType))"

definition toDelta :: "RawDiff list \<Rightarrow> error + jsstring" where
  "toDelta ds =
     (case toDelta_loop ds of
        Inl e \<Rightarrow> Inl e
      | Inr text \<Rightarrow> Inr (replace_pct20 (join [0x09] text)))"

text \<open>
  The search loop of \<open>deisolateChar\<close>: \<open>j\<close> walks from \<open>i + dir\<close> in direction \<open>dir\<close>
  while it is inside the array and one of \<open>insertIdx\<close>, \<open>deleteIdx\<close> is still \<open>null\<close>.
  The loop is left in three ways: by its condition, by the \<open>break\<close> at a non-empty EQUAL
  entry met after an INSERT or a DELETE (both \<open>Stopped\<close>, with the final \<open>j\<close>), or by the
  \<open>return\<close> at a non-empty EQUAL entry met before any (\<open>Consecutive\<close>, at index \<open>j\<close>).
\<close>

datatype scan_result =
    Consecutive nat
  | Stopped int "nat option" "nat option"

function scan :: "Diff list \<Rightarrow> dir \<Rightarrow> int \<Rightarrow> nat option \<Rightarrow> nat option \<Rightarrow> scan_result" where
  "scan ds dir j insertIdx deleteIdx =
     (if 0 \<le> j \<and> j < int (length ds) \<and> (insertIdx = None \<or> deleteIdx = None) then
        (case ds ! nat j of (op, text) \<Rightarrow>
           if text = [] then scan ds dir (j + dir_value dir) insertIdx deleteIdx
           else
             (case op of
                INSERT \<Rightarrow>
                  scan ds dir (j + dir_value dir)
                    (if insertIdx = None then Some (nat j) else insertIdx) deleteIdx
              | DELETE \<Rightarrow>
                  scan ds dir (j + dir_value dir) insertIdx
                    (if deleteIdx = None then Some (nat j) else deleteIdx)
              | EQUAL \<Rightarrow>
                  if insertIdx = None \<and> deleteIdx = None then Consecutive (nat j)
                  else Stopped j insertIdx deleteIdx))
      else Stopped j insertIdx deleteIdx)"
  by pat_completeness auto
termination
  by (relation "measure (\<lambda>(ds, dir, j, insertIdx, deleteIdx).
        (case dir of Forward \<Rightarrow> nat (int (length ds) - j) | Backward \<Rightarrow> nat (j + 1)))")
     (auto split: dir.splits)

declare scan.simps [simp del]

text \<open>
  A synthesized entry \<open>[op, char]\<close>. With \<open>char\<close> \<open>undefined\<close> the entry has no text, and
  the later read of its \<open>length\<close> raises a TypeError.
\<close>

definition new_entry :: "DiffType \<Rightarrow> char16 option \<Rightarrow> error + Diff" where
  "new_entry op char = (case char of None \<Rightarrow> Inl TypeError | Some c \<Rightarrow> Inr (op, [c]))"

text \<open>
  \<open>deisolateChar(diffs, i, dir)\<close>, on the array as a value: the result is the array after
  the call. Its three parts are defined one by one, in the order of the source.

  The early return for two consecutive equalities: the character split off entry \<open>i\<close> goes
  to the EQUAL entry at \<open>j\<close>.
\<close>

definition move_to_equal :: "Diff list \<Rightarrow> nat \<Rightarrow> nat \<Rightarrow> dir \<Rightarrow> error + Diff list" where
  "move_to_equal ds i j dir =
     bind (get_text ds i) (\<lambda>ti.
       case splitChar ti dir of (rest, char) \<Rightarrow>
         bind (set_text ds i rest) (\<lambda>ds1.
         bind (get_text ds1 j) (\<lambda>tj.
           set_text ds1 j (combineChar tj char (inv dir)))))"

text \<open>
  The condition of the special case:
  \<open>insertIdx !== null && deleteIdx !== null && hasSharedChar(diffs, insertIdx, deleteIdx, dir)\<close>.
\<close>

definition both_share :: "Diff list \<Rightarrow> nat option \<Rightarrow> nat option \<Rightarrow> dir \<Rightarrow> error + bool" where
  "both_share ds insertIdx deleteIdx dir =
     (case (insertIdx, deleteIdx) of
        (Some ins, Some del) \<Rightarrow> hasSharedChar ds ins del dir
      | _ \<Rightarrow> Inr False)"

text \<open>
  The special case: a character is split off the INSERT and off the DELETE in direction
  \<open>inv\<close>, and the one of the INSERT is joined to entry \<open>i\<close> in direction \<open>dir\<close>.
\<close>

definition take_shared :: "Diff list \<Rightarrow> nat \<Rightarrow> nat \<Rightarrow> nat \<Rightarrow> dir \<Rightarrow> error + Diff list" where
  "take_shared ds i insertIdx deleteIdx dir =
     bind (get_text ds insertIdx) (\<lambda>ti.
     bind (get_text ds deleteIdx) (\<lambda>td.
       case splitChar ti (inv dir) of (insertText, insertChar) \<Rightarrow>
       case splitChar td (inv dir) of (deleteText, _) \<Rightarrow>
         bind (set_text ds insertIdx insertText) (\<lambda>ds1.
         bind (set_text ds1 deleteIdx deleteText) (\<lambda>ds2.
         bind (get_text ds2 i) (\<lambda>te.
           set_text ds2 i (combineChar te insertChar dir))))))"

text \<open>
  The general case: the character split off entry \<open>i\<close> is joined to the INSERT and to the
  DELETE found, and for each one not found a new entry is spliced in at \<open>j\<close>. After the
  splice of a new INSERT, \<open>deleteIdx\<close> is incremented when \<open>deleteIdx >= j\<close>.
\<close>

definition push_char ::
  "Diff list \<Rightarrow> nat \<Rightarrow> int \<Rightarrow> nat option \<Rightarrow> nat option \<Rightarrow> dir \<Rightarrow> error + Diff list" where
  "push_char ds i j insertIdx deleteIdx dir =
     bind (get_text ds i) (\<lambda>te.
       case splitChar te dir of (text, char) \<Rightarrow>
         bind (set_text ds i text) (\<lambda>ds1.
         bind (case insertIdx of
                 None \<Rightarrow>
                   bind (new_entry INSERT char) (\<lambda>e.
                     Inr (splice_insert ds1 j e,
                          (case deleteIdx of
                             None \<Rightarrow> None
                           | Some del \<Rightarrow> if j \<le> int del then Some (del + 1) else Some del)))
               | Some ins \<Rightarrow>
                   bind (get_text ds1 ins) (\<lambda>ti.
                   bind (set_text ds1 ins (combineChar ti char (inv dir))) (\<lambda>ds2.
                     Inr (ds2, deleteIdx)))) (\<lambda>(ds2, deleteIdx').
           (case deleteIdx' of
              None \<Rightarrow> bind (new_entry DELETE char) (\<lambda>e. Inr (splice_insert ds2 j e))
            | Some del \<Rightarrow>
                bind (get_text ds2 del) (\<lambda>td.
                  set_text ds2 del (combineChar td char (inv dir)))))))"

definition deisolateChar :: "Diff list \<Rightarrow> nat \<Rightarrow> dir \<Rightarrow> error + Diff list" where
  "deisolateChar ds i dir =
     (case scan ds dir (int i + dir_value dir) None None of
        Consecutive j \<Rightarrow> move_to_equal ds i j dir
      | Stopped j insertIdx deleteIdx \<Rightarrow>
          bind (both_share ds insertIdx deleteIdx dir) (\<lambda>shared.
            if shared then take_shared ds i (the insertIdx) (the deleteIdx) dir
            else push_char ds i j insertIdx deleteIdx dir))"

subsection \<open>adjustDiffForSurrogatePairs\<close>

text \<open>
  The body of the first loop at index \<open>i\<close>: \<open>firstChar\<close> and \<open>lastChar\<close> are read once,
  before either call.
\<close>

definition repair_entry :: "Diff list \<Rightarrow> nat \<Rightarrow> error + Diff list" where
  "repair_entry ds i =
     (case ds ! i of (diffType, diffText) \<Rightarrow>
        if diffText = [] then Inr ds
        else
          (let firstChar = hd diffText; lastChar = last diffText in
             bind (if isHighSurrogate lastChar \<and> diffType = EQUAL
                   then deisolateChar ds i Forward else Inr ds) (\<lambda>ds1.
               if isLowSurrogate firstChar \<and> diffType = EQUAL
               then deisolateChar ds1 i Backward else Inr ds1)))"

text \<open>
  The first loop, \<open>for (let i = 0; i < diffs.length; i++)\<close>, over an array that its body
  lengthens. \<open>None\<close> stands for a loop that does not end.
\<close>

partial_function (option) repair_loop :: "Diff list \<Rightarrow> nat \<Rightarrow> (error + Diff list) option" where
  "repair_loop ds i =
     (if i < length ds then
        (case repair_entry ds i of
           Inl e \<Rightarrow> Some (Inl e)
         | Inr ds' \<Rightarrow> repair_loop ds' (i + 1))
      else Some (Inr ds))"

declare repair_loop.simps [code]

text \<open>
  The second loop: an empty entry is spliced out at \<open>i\<close>, and \<open>i\<close> is incremented all the
  same, so the entry that moved into position \<open>i\<close> is not looked at.
\<close>

function remove_loop :: "Diff list \<Rightarrow> nat \<Rightarrow> Diff list" where
  "remove_loop ds i =
     (if i < length ds then
        (if snd (ds ! i) = [] then remove_loop (splice_delete ds i) (i + 1)
         else remove_loop ds (i + 1))
      else ds)"
  by pat_completeness auto
termination
  by (relation "measure (\<lambda>(ds, i). length ds - i)") (auto simp: splice_delete_def)

declare remove_loop.simps [simp del]

definition adjustDiffForSurrogatePairs :: "Diff list \<Rightarrow> (error + Diff list) option" where
  "adjustDiffForSurrogatePairs ds =
     (case repair_loop ds 0 of
        None \<Rightarrow> None
      | Some (Inl e) \<Rightarrow> Some (Inl e)
      | Some (Inr ds') \<Rightarrow> Some (Inr (remove_loop ds' 0)))"

subsection \<open>diff\<close>

text \<open>
  \<open>diff.ts\<close> imports \<open>commonPrefix\<close>, \<open>commonSuffix\<close>, \<open>compute_\<close> and \<open>cleanupMerge\<close> from
  modules that the sources do not hold. They are parameters here, so that what is proved
  of \<open>diff\<close> holds whatever they compute. (\<open>compute_\<close> is the field \<open>compute\<close>, and
  \<open>_diff\<close> is \<open>internal_diff\<close>: neither name can be written as it is.)
\<close>

record helpers =
  commonPrefix :: "jsstring \<Rightarrow> jsstring \<Rightarrow> nat"
  commonSuffix :: "jsstring \<Rightarrow> jsstring \<Rightarrow> nat"
  compute :: "jsstring \<Rightarrow> jsstring \<Rightarrow> InternalDiffOptions \<Rightarrow> Diff list"
  cleanupMerge :: "Diff list \<Rightarrow> Diff list"

definition internal_diff ::
  "helpers \<Rightarrow> jsstring \<Rightarrow> jsstring \<Rightarrow> InternalDiffOptions \<Rightarrow> Diff list" where
  "internal_diff h textA textB options =
     (if textA = textB then (if textA \<noteq> [] then [(EQUAL, textA)] else [])
      else
        (let commonlength = int (commonPrefix h textA textB);
             commonprefix = substring textA 0 commonlength;
             text1 = substring_from textA commonlength;
             text2 = substring_from textB commonlength;
             commonlength = int (commonSuffix h text1 text2);
             commonsuffix = substring_from text1 (int (length text1) - commonlength);
             text1' = substring text1 0 (int (length text1) - commonlength);
             text2' = substring text2 0 (int (length text2) - commonlength);
             diffs0 = compute h text1' text2' options;
             diffs1 = (if commonprefix \<noteq> [] then (EQUAL, commonprefix) # diffs0 else diffs0);
             diffs2 = (if commonsuffix \<noteq> [] then diffs1 @ [(EQUAL, commonsuffix)] else diffs1)
         in cleanupMerge h diffs2))"

text \<open>\<open>opts || {}\<close>.\<close>

definition given_options :: "DiffOptions option \<Rightarrow> DiffOptions" where
  "given_options opts =
     (case opts of
        None \<Rightarrow> \<lparr> opt_checkLines = None, opt_timeout = None \<rparr>
      | Some given \<Rightarrow> given)"

text \<open>\<open>diff(textA, textB, opts)\<close>; \<open>null\<close> is \<open>None\<close>.\<close>

definition diff ::
  "helpers \<Rightarrow> real \<Rightarrow> jsstring option \<Rightarrow> jsstring option \<Rightarrow> DiffOptions option
     \<Rightarrow> (error + Diff list) option" where
  "diff h now textA textB opts =
     (case (textA, textB) of
        (Some a, Some b) \<Rightarrow>
          adjustDiffForSurrogatePairs
            (internal_diff h a b (createInternalOpts now (given_options opts)))
      | _ \<Rightarrow> Some (Inl NullInput))"

section \<open>The imported functions, from the specification\<close>

text \<open>
  Closed examples of \<open>diff\<close> need values for the four imported functions. The
  definitions below give them from the spec's sections 4.1, 4.3 and 4.7; no theorem about
  every input of \<open>diff\<close> uses them.
\<close>

fun common_prefix_length :: "jsstring \<Rightarrow> jsstring \<Rightarrow> nat" where
  "common_prefix_length (x # xs) (y # ys) = (if x = y then Suc (common_prefix_length xs ys) else 0)"
| "common_prefix_length xs ys = 0"

definition splits_pair :: "jsstring \<Rightarrow> nat \<Rightarrow> bool" where
  "splits_pair s n =
     (0 < n \<and> n < length s \<and> isHighSurrogate (s ! (n - 1)) \<and> isLowSurrogate (s ! n))"

text \<open>
  Modelled from the spec: \<open>commonPrefix\<close> of \<open>diff/commonPrefix.js\<close> (section 4.1): the
  longest matching length at the start, one less where that boundary falls between a
  high and a low surrogate.
\<close>

definition commonPrefix_spec :: "jsstring \<Rightarrow> jsstring \<Rightarrow> nat" where
  "commonPrefix_spec a b =
     (let n = common_prefix_length a b
      in if splits_pair a n \<or> splits_pair b n then n - 1 else n)"

text \<open>
  Modelled from the spec: \<open>commonSuffix\<close> of \<open>diff/commonSuffix.js\<close> (section 4.1), the
  same at the end.
\<close>

definition commonSuffix_spec :: "jsstring \<Rightarrow> jsstring \<Rightarrow> nat" where
  "commonSuffix_spec a b =
     (let n = common_prefix_length (rev a) (rev b)
      in if splits_pair a (length a - n) \<or> splits_pair b (length b - n) then n - 1 else n)"

fun index_of :: "jsstring \<Rightarrow> jsstring \<Rightarrow> nat option" where
  "index_of [] pat = (if pat = [] then Some 0 else None)"
| "index_of (c # cs) pat =
     (if take (length pat) (c # cs) = pat then Some 0
      else map_option Suc (index_of cs pat))"

text \<open>
  Modelled from the spec: \<open>compute_\<close> of \<open>diff/compute.js\<close>, the first three checks of
  section 4.3: (a) an empty text gives a single INSERT or DELETE of the other, (b) a
  shorter text found inside the longer gives the match as EQUAL between the two remainders,
  (c) two texts of length 1 give DELETE then INSERT. For every other pair the model takes
  the result that section 4.4 gives when the deadline has passed, DELETE of the first text
  then INSERT of the second; half-match, line mode and bisection are not modelled.
\<close>

definition compute_spec :: "jsstring \<Rightarrow> jsstring \<Rightarrow> InternalDiffOptions \<Rightarrow> Diff list" where
  "compute_spec text1 text2 options =
     (if text1 = [] then [(INSERT, text2)]
      else if text2 = [] then [(DELETE, text1)]
      else
        (let long = (if length text1 > length text2 then text1 else text2);
             short = (if length text1 > length text2 then text2 else text1);
             op = (if length text1 > length text2 then DELETE else INSERT)
         in case index_of long short of
              Some k \<Rightarrow>
                [(op, take k long), (EQUAL, short), (op, drop (k + length short) long)]
            | None \<Rightarrow>
                if length text1 = 1 \<and> length text2 = 1 then [(DELETE, text1), (INSERT, text2)]
                else [(DELETE, text1), (INSERT, text2)]))"

text \<open>
  Modelled from the spec: \<open>cleanupMerge\<close> of \<open>diff/cleanup.js\<close> (section 4.7, Merge). One
  pass gathers the DELETE text and the INSERT text of every run between equalities
  (deletes, then inserts), merges adjacent entries of one kind and drops empty ones, then
  moves a prefix or suffix common to a DELETE and the INSERT after it into the
  neighbouring equalities; passes repeat until one changes nothing.
\<close>

fun group_runs :: "Diff list \<Rightarrow> jsstring \<Rightarrow> jsstring \<Rightarrow> Diff list" where
  "group_runs [] dels inss = [(DELETE, dels), (INSERT, inss)]"
| "group_runs ((DELETE, t) # ds) dels inss = group_runs ds (dels @ t) inss"
| "group_runs ((INSERT, t) # ds) dels inss = group_runs ds dels (inss @ t)"
| "group_runs ((EQUAL, t) # ds) dels inss =
     (DELETE, dels) # (INSERT, inss) # (EQUAL, t) # group_runs ds [] []"

fun absorb_affixes :: "Diff list \<Rightarrow> Diff list" where
  "absorb_affixes ((DELETE, d) # (INSERT, i) # ds) =
     (let p = commonPrefix_spec i d;
          d1 = drop p d; i1 = drop p i;
          s = commonSuffix_spec i1 d1
      in (EQUAL, take p i) # (DELETE, take (length d1 - s) d1) # (INSERT, take (length i1 - s) i1)
           # (EQUAL, drop (length i1 - s) i1) # absorb_affixes ds)"
| "absorb_affixes (x # ds) = x # absorb_affixes ds"
| "absorb_affixes [] = []"

fun merge_same_kind :: "Diff list \<Rightarrow> Diff list" where
  "merge_same_kind (x # y # ds) =
     (if fst x = fst y then merge_same_kind ((fst x, snd x @ snd y) # ds)
      else x # merge_same_kind (y # ds))"
| "merge_same_kind ds = ds"

definition drop_empty :: "Diff list \<Rightarrow> Diff list" where
  "drop_empty ds = filter (\<lambda>d. snd d \<noteq> []) ds"

definition merge_pass :: "Diff list \<Rightarrow> Diff list" where
  "merge_pass ds =
     merge_same_kind (drop_empty (absorb_affixes
       (merge_same_kind (drop_empty (group_runs ds [] [])))))"

fun repeat_until_stable :: "nat \<Rightarrow> Diff list \<Rightarrow> Diff list" where
  "repeat_until_stable 0 ds = ds"
| "repeat_until_stable (Suc n) ds =
     (let ds' = merge_pass ds in if ds' = ds then ds else repeat_until_stable n ds')"

definition cleanupMerge_spec :: "Diff list \<Rightarrow> Diff list" where
  "cleanupMerge_spec ds = repeat_until_stable (Suc (length ds)) ds"

definition spec_helpers :: helpers where
  "spec_helpers =
     \<lparr> commonPrefix = commonPrefix_spec, commonSuffix = commonSuffix_spec,
       compute = compute_spec, cleanupMerge = cleanupMerge_spec \<rparr>"

text \<open>
  The same functions, but with the common prefix counted in code units, without the
  backing off by one of section 4.1. The equality that \<open>_diff\<close> puts in front can then end
  inside a surrogate pair: the kind of script that the repair of \<open>diff\<close> is written for.
\<close>

definition unit_helpers :: helpers where
  "unit_helpers =
     \<lparr> commonPrefix = common_prefix_length, commonSuffix = commonSuffix_spec,
       compute = compute_spec, cleanupMerge = cleanupMerge_spec \<rparr>"
section \<open>The notions of the specification\<close>

subsection \<open>Reconstructed texts\<close>

text \<open>
  Modelled from the spec: the reconstructions \<open>text1\<close> and \<open>text2\<close> of section 4.8, whose
  code the sources do not hold. Section 3 gives them: the texts of the EQUAL and DELETE
  entries, in order, make the source text; those of the EQUAL and INSERT entries the
  destination text.
\<close>

definition text1 :: "Diff list \<Rightarrow> jsstring" where
  "text1 ds = concat (map snd (filter (\<lambda>d. fst d = EQUAL \<or> fst d = DELETE) ds))"

definition text2 :: "Diff list \<Rightarrow> jsstring" where
  "text2 ds = concat (map snd (filter (\<lambda>d. fst d = EQUAL \<or> fst d = INSERT) ds))"

subsection \<open>Clean scripts\<close>

fun no_adjacent_same :: "Diff list \<Rightarrow> bool" where
  "no_adjacent_same (x # y # ds) = (fst x \<noteq> fst y \<and> no_adjacent_same (y # ds))"
| "no_adjacent_same ds = True"

definition no_empty :: "Diff list \<Rightarrow> bool" where
  "no_empty ds = list_all (\<lambda>d. snd d \<noteq> []) ds"

definition merge_clean :: "Diff list \<Rightarrow> bool" where
  "merge_clean ds = (no_empty ds \<and> no_adjacent_same ds)"

text \<open>The entries that the first loop of \<open>adjustDiffForSurrogatePairs\<close> rewrites.\<close>

definition needs_repair :: "Diff \<Rightarrow> bool" where
  "needs_repair d =
     (fst d = EQUAL \<and> snd d \<noteq> []
      \<and> (isHighSurrogate (last (snd d)) \<or> isLowSurrogate (hd (snd d))))"

subsection \<open>The Levenshtein distance in the words of the specification\<close>

text \<open>
  The entries of a script, cut at its EQUAL entries: the maximal runs of INSERT and DELETE
  entries between equalities or a sequence end (a run is empty where two cuts meet).
\<close>

fun edit_runs :: "Diff list \<Rightarrow> Diff list list" where
  "edit_runs [] = [[]]"
| "edit_runs (d # ds) =
     (if fst d = EQUAL then [] # edit_runs ds
      else (case edit_runs ds of r # rs \<Rightarrow> (d # r) # rs | [] \<Rightarrow> [[d]]))"

definition kind_length :: "DiffType \<Rightarrow> Diff list \<Rightarrow> int" where
  "kind_length k run = (\<Sum>d \<leftarrow> filter (\<lambda>d. fst d = k) run. int (length (snd d)))"

definition run_cost :: "Diff list \<Rightarrow> int" where
  "run_cost run = max (kind_length INSERT run) (kind_length DELETE run)"

definition levenshtein_spec :: "Diff list \<Rightarrow> int" where
  "levenshtein_spec ds = (\<Sum>run \<leftarrow> edit_runs ds. run_cost run)"

subsection \<open>The delta in the words of the specification\<close>

text \<open>A string with no surrogate code unit outside a pair.\<close>

fun well_formed16 :: "jsstring \<Rightarrow> bool" where
  "well_formed16 [] = True"
| "well_formed16 (c # cs) =
     (if isHighSurrogate c then
        (case cs of [] \<Rightarrow> False | k # ks \<Rightarrow> isLowSurrogate k \<and> well_formed16 ks)
      else \<not> isLowSurrogate c \<and> well_formed16 cs)"

definition percent_encode :: "jsstring \<Rightarrow> jsstring" where
  "percent_encode t = (case encodeURI t of Inl e \<Rightarrow> [] | Inr enc \<Rightarrow> enc)"

text \<open>
  One token per entry: \<open>=n\<close> and \<open>-n\<close> with the length of the text, and \<open>+\<close> with the
  percent-encoded text in which every \<open>%20\<close> is written as a space.
\<close>

fun delta_token :: "Diff \<Rightarrow> jsstring" where
  "delta_token (EQUAL, t) = 0x3D # decimal (length t)"
| "delta_token (DELETE, t) = 0x2D # decimal (length t)"
| "delta_token (INSERT, t) = 0x2B # replace_pct20 (percent_encode t)"

definition toDelta_spec :: "Diff list \<Rightarrow> jsstring" where
  "toDelta_spec ds = join [0x09] (map delta_token ds)"

text \<open>The tokens as the loop of \<open>toDelta\<close> pushes them, before the replacement.\<close>

fun raw_token :: "Diff \<Rightarrow> jsstring" where
  "raw_token (EQUAL, t) = 0x3D # decimal (length t)"
| "raw_token (DELETE, t) = 0x2D # decimal (length t)"
| "raw_token (INSERT, t) = 0x2B # percent_encode t"

subsection \<open>Surrogate pairs at entry boundaries\<close>

text \<open>
  A text that starts with a low surrogate, or that ends with a high one, has a boundary
  inside a surrogate pair or holds a surrogate without its partner. An entry is whole
  when its text does neither.
\<close>

definition starts_low :: "jsstring \<Rightarrow> bool" where
  "starts_low t = (t \<noteq> [] \<and> isLowSurrogate (hd t))"

definition ends_high :: "jsstring \<Rightarrow> bool" where
  "ends_high t = (t \<noteq> [] \<and> isHighSurrogate (last t))"

definition whole_entry :: "Diff \<Rightarrow> bool" where
  "whole_entry d = (\<not> starts_low (snd d) \<and> \<not> ends_high (snd d))"

text \<open>
  Modelled from the spec: what merge cleanup (section 4.7, whose code the sources do not
  hold) does to the entries between two equalities: all DELETE text is gathered in one
  entry and all INSERT text in one entry, so a run holds at most one entry of either
  kind.
\<close>

definition run_grouped :: "Diff list \<Rightarrow> bool" where
  "run_grouped run =
     (length (filter (\<lambda>d. fst d = DELETE) run) \<le> 1
      \<and> length (filter (\<lambda>d. fst d = INSERT) run) \<le> 1)"

definition grouped :: "Diff list \<Rightarrow> bool" where
  "grouped ds = list_all run_grouped (edit_runs ds)"
section \<open>Measures and invariants for the proofs\<close>

text \<open>
  The weight of a script from a position on: an EQUAL entry weighs five per code unit,
  an INSERT or DELETE entry one, and every entry one more. The first loop of
  \<open>adjustDiffForSurrogatePairs\<close> lowers the weight from its index on with every
  iteration, which is why it ends although its body lengthens the array.
\<close>

definition weight :: "Diff \<Rightarrow> int" where
  "weight d = (if fst d = EQUAL then 1 + 5 * int (length (snd d)) else 1 + int (length (snd d)))"

definition tailw :: "Diff list \<Rightarrow> nat \<Rightarrow> int" where
  "tailw ds m = (\<Sum>d \<leftarrow> drop m ds. weight d)"

definition entry_of :: "Diff list \<Rightarrow> DiffType \<Rightarrow> nat \<Rightarrow> bool" where
  "entry_of ds k x = (x < length ds \<and> fst (ds ! x) = k \<and> snd (ds ! x) \<noteq> [])"

definition found_after :: "Diff list \<Rightarrow> nat \<Rightarrow> int \<Rightarrow> DiffType \<Rightarrow> nat option \<Rightarrow> bool" where
  "found_after ds i j k idx =
     (case idx of None \<Rightarrow> True | Some x \<Rightarrow> i < x \<and> int x < j \<and> entry_of ds k x)"

definition found_before :: "Diff list \<Rightarrow> nat \<Rightarrow> int \<Rightarrow> DiffType \<Rightarrow> nat option \<Rightarrow> bool" where
  "found_before ds i j k idx =
     (case idx of None \<Rightarrow> True | Some x \<Rightarrow> x < i \<and> j < int x \<and> entry_of ds k x)"

definition forward_post :: "Diff list \<Rightarrow> nat \<Rightarrow> scan_result \<Rightarrow> bool" where
  "forward_post ds i r =
     (case r of
        Consecutive k \<Rightarrow> i < k \<and> entry_of ds EQUAL k
      | Stopped j' ins' del' \<Rightarrow>
          int i < j' \<and> j' \<le> int (length ds)
          \<and> found_after ds i j' INSERT ins' \<and> found_after ds i j' DELETE del'
          \<and> (if ins' = None \<and> del' = None then j' = int (length ds) else True))"

definition backward_post :: "Diff list \<Rightarrow> nat \<Rightarrow> scan_result \<Rightarrow> bool" where
  "backward_post ds i r =
     (case r of
        Consecutive k \<Rightarrow> k < i \<and> entry_of ds EQUAL k
      | Stopped j' ins' del' \<Rightarrow>
          - 1 \<le> j' \<and> j' < int i
          \<and> found_before ds i j' INSERT ins' \<and> found_before ds i j' DELETE del'
          \<and> (if ins' = None \<and> del' = None then j' = - 1 else True))"

definition insert_at :: "nat \<Rightarrow> 'a \<Rightarrow> 'a list \<Rightarrow> 'a list" where
  "insert_at p e xs = take p xs @ e # drop p xs"

text \<open>
  The shape of a script after merge cleanup, entry by entry: no empty text, no two
  adjacent entries of one kind, and no three entries in a row that are all INSERT or
  DELETE. A run is two-sided when it is one non-empty DELETE and one non-empty INSERT, in
  either order.
\<close>

fun shaped :: "Diff list \<Rightarrow> bool" where
  "shaped [] = True"
| "shaped [d] = (snd d \<noteq> [])"
| "shaped (d # e # ds) =
     (snd d \<noteq> [] \<and> fst d \<noteq> fst e
      \<and> (fst d \<noteq> EQUAL \<and> fst e \<noteq> EQUAL \<longrightarrow> (case ds of [] \<Rightarrow> True | f # fs \<Rightarrow> fst f = EQUAL))
      \<and> shaped (e # ds))"

fun two_sided :: "Diff list \<Rightarrow> bool" where
  "two_sided [(k, x), (k', y)] =
     (x \<noteq> [] \<and> y \<noteq> [] \<and> ((k = DELETE \<and> k' = INSERT) \<or> (k = INSERT \<and> k' = DELETE)))"
| "two_sided run = False"
section \<open>Properties of levenshtein\<close>

lemma edit_runs_nonempty: "edit_runs ds \<noteq> []"
  by (induction ds) (auto split: list.splits)

lemma kind_length_Nil [simp]: "kind_length k [] = 0"
  by (simp add: kind_length_def)

lemma kind_length_Cons:
  "kind_length k (d # run) = (if fst d = k then int (length (snd d)) else 0) + kind_length k run"
  by (simp add: kind_length_def)

lemma kind_length_snoc:
  "kind_length k (run @ [d]) = kind_length k run + (if fst d = k then int (length (snd d)) else 0)"
  by (simp add: kind_length_def)

lemma kind_length_nonneg: "0 \<le> kind_length k run"
  by (induction run) (auto simp: kind_length_Cons)

text \<open>
  The loop invariant: with \<open>insertions\<close> and \<open>deletions\<close> holding the lengths seen since the
  last equality, the loop returns \<open>leven\<close>, plus the cost of the run in progress extended
  by the entries up to the next equality, plus the costs of the later runs.
\<close>

lemma levenshtein_loop_runs:
  "levenshtein_loop (map raw ds) leven (kind_length INSERT acc) (kind_length DELETE acc)
     = Inr (leven + run_cost (acc @ hd (edit_runs ds))
                  + (\<Sum>run \<leftarrow> tl (edit_runs ds). run_cost run))"
proof (induction ds arbitrary: leven acc)
  case Nil
  then show ?case by (simp add: run_cost_def)
next
  case (Cons d ds)
  obtain k t where d: "d = (k, t)" by (cases d)
  obtain r rs where rs: "edit_runs ds = r # rs"
    using edit_runs_nonempty [of ds] by (cases "edit_runs ds") auto
  show ?case
  proof (cases k)
    case DELETE
    show ?thesis
      using Cons.IH [of leven "acc @ [d]"]
      by (simp add: kind_length_snoc d DELETE raw_def rs)
  next
    case INSERT
    show ?thesis
      using Cons.IH [of leven "acc @ [d]"]
      by (simp add: kind_length_snoc d INSERT raw_def rs)
  next
    case EQUAL
    show ?thesis
      using Cons.IH [of "leven + max (kind_length INSERT acc) (kind_length DELETE acc)" "[]"]
      by (simp add: d EQUAL raw_def rs run_cost_def)
  qed
qed

lemma sum_list_hd_tl:
  "xs \<noteq> [] \<Longrightarrow> f (hd xs) + (\<Sum>x \<leftarrow> tl xs. f x) = (\<Sum>x \<leftarrow> xs. (f x :: int))"
  by (cases xs) auto

text \<open>
  C8. For every diff sequence, \<open>levenshtein\<close> returns the sum, over the maximal runs of
  INSERT and DELETE entries between EQUAL entries or a sequence end, of the larger of the
  run's total inserted length and its total deleted length.
\<close>

theorem levenshtein_sums_run_maxima:
  "levenshtein (map raw ds) = Inr (levenshtein_spec ds)"
proof -
  have "levenshtein (map raw ds)
      = Inr (0 + run_cost ([] @ hd (edit_runs ds)) + (\<Sum>run \<leftarrow> tl (edit_runs ds). run_cost run))"
    unfolding levenshtein_def using levenshtein_loop_runs [of ds 0 "[]"] by simp
  also have "\<dots> = Inr (levenshtein_spec ds)"
    using sum_list_hd_tl [OF edit_runs_nonempty, of run_cost ds]
    by (simp add: levenshtein_spec_def)
  finally show ?thesis .
qed

theorem levenshtein_sums_run_maxima_witness:
  "levenshtein (map raw [(DELETE, [0x6B]), (INSERT, [0x73]), (EQUAL, [0x69, 0x74, 0x74]),
                         (DELETE, [0x65]), (INSERT, [0x69]), (EQUAL, [0x6E]), (INSERT, [0x67])])
     = Inr 3"
  using levenshtein_sums_run_maxima
    [of "[(DELETE, [0x6B]), (INSERT, [0x73]), (EQUAL, [0x69, 0x74, 0x74]),
          (DELETE, [0x65]), (INSERT, [0x69]), (EQUAL, [0x6E]), (INSERT, [0x67])]"]
  by (simp add: levenshtein_spec_def run_cost_def kind_length_def)

lemma levenshtein_loop_total:
  "list_all (\<lambda>d. fst d = -1 \<or> fst d = 1 \<or> fst d = 0) ds \<Longrightarrow>
   0 \<le> leven \<Longrightarrow> 0 \<le> insertions \<Longrightarrow> 0 \<le> deletions \<Longrightarrow>
   \<exists>n. levenshtein_loop ds leven insertions deletions = Inr n \<and> 0 \<le> n"
proof (induction ds arbitrary: leven insertions deletions)
  case Nil
  then show ?case by simp
next
  case (Cons d ds)
  obtain op data where d: "d = (op, data)" by (cases d)
  from Cons.prems(1) have ops: "op = -1 \<or> op = 1 \<or> op = 0"
    and rest: "list_all (\<lambda>d. fst d = -1 \<or> fst d = 1 \<or> fst d = 0) ds"
    by (simp_all add: d)
  from ops show ?case
  proof (elim disjE)
    assume "op = -1"
    then show ?thesis
      using Cons.IH [OF rest Cons.prems(2) Cons.prems(3), of "deletions + int (length data)"]
        Cons.prems(4) by (simp add: d)
  next
    assume "op = 1"
    then show ?thesis
      using Cons.IH [OF rest Cons.prems(2) _ Cons.prems(4), of "insertions + int (length data)"]
        Cons.prems(3) by (simp add: d)
  next
    assume "op = 0"
    then show ?thesis
      using Cons.IH [OF rest, of "leven + max insertions deletions" 0 0]
        Cons.prems(2,3) by (simp add: d)
  qed
qed

text \<open>
  C10. On every diff sequence whose entries have kind DELETE (-1), INSERT (1) or EQUAL (0),
  \<open>levenshtein\<close> does not reach the \<open>Unknown diff operation\<close> branch: it returns a number,
  and the number is not negative.
\<close>

theorem levenshtein_total_on_known_kinds:
  assumes "list_all (\<lambda>d. fst d = -1 \<or> fst d = 1 \<or> fst d = 0) ds"
  shows "\<exists>n. levenshtein ds = Inr n \<and> 0 \<le> n"
  unfolding levenshtein_def using levenshtein_loop_total [OF assms, of 0 0 0] by simp

theorem levenshtein_total_on_known_kinds_witness:
  "list_all (\<lambda>d. fst d = -1 \<or> fst d = 1 \<or> fst d = 0)
     [(-1, [0x61, 0x62]), (1, [0x63]), (0, [0x64]), (1, [0x65, 0x66 :: char16])]
   \<and> (\<exists>n. levenshtein [(-1, [0x61, 0x62]), (1, [0x63]), (0, [0x64]), (1, [0x65, 0x66])] = Inr n
         \<and> 0 \<le> n)"
  using levenshtein_total_on_known_kinds
    [of "[(-1, [0x61, 0x62]), (1, [0x63]), (0, [0x64]), (1, [0x65, 0x66])]"]
  by simp

section \<open>Properties of toDelta\<close>

lemma uri_unescaped_not_surrogate:
  "uri_unescaped c \<Longrightarrow> \<not> isLowSurrogate c \<and> \<not> isHighSurrogate c"
  by (auto simp: uri_unescaped_def isLowSurrogate_def isHighSurrogate_def Let_def)

lemma well_formed16_encodeURI: "well_formed16 t \<Longrightarrow> \<exists>enc. encodeURI t = Inr enc"
proof (induction t rule: well_formed16.induct)
  case 1
  then show ?case by simp
next
  case (2 c cs)
  show ?case
  proof (cases "isHighSurrogate c")
    case True
    with "2.prems" obtain k ks where cs: "cs = k # ks" and k: "isLowSurrogate k"
      and ks: "well_formed16 ks"
      by (auto split: list.splits)
    from "2.IH"(1) [OF True cs ks] obtain r where "encodeURI ks = Inr r" by blast
    moreover have "\<not> uri_unescaped c" "\<not> isLowSurrogate c"
      using True uri_unescaped_not_surrogate [of c]
      by (auto simp: isLowSurrogate_def isHighSurrogate_def)
    ultimately show ?thesis using True cs k by simp
  next
    case False
    with "2.prems" have c: "\<not> isLowSurrogate c" and cs: "well_formed16 cs" by simp_all
    from "2.IH"(2) [OF False cs] obtain r where "encodeURI cs = Inr r" by blast
    then show ?thesis using False c by simp
  qed
qed

lemma replace_pct20_tab:
  "replace_pct20 (xs @ 0x09 # ys) = replace_pct20 xs @ 0x09 # replace_pct20 ys"
proof (induction xs rule: replace_pct20.induct)
  case 1
  show ?case by simp
next
  case (2 c cs)
  show ?case
  proof (cases "c = 0x25 \<and> take 2 cs = [0x32, 0x30]")
    case True
    then have len: "2 \<le> length cs"
      by (metis length_take min.cobounded1 length_Cons list.size(3) One_nat_def Suc_1)
    with True "2.IH"(1) show ?thesis by simp
  next
    case False
    have "\<not> (c = 0x25 \<and> take 2 (cs @ 0x09 # ys) = [0x32, 0x30])"
    proof (cases cs)
      case Nil
      then show ?thesis by simp
    next
      case (Cons a as)
      then show ?thesis using False by (cases as) auto
    qed
    with False "2.IH"(2) show ?thesis by simp
  qed
qed

lemma replace_pct20_join:
  "replace_pct20 (join [0x09] toks) = join [0x09] (map replace_pct20 toks)"
proof (induction toks)
  case Nil
  show ?case by simp
next
  case (Cons x xs)
  then show ?case by (cases xs) (simp_all add: replace_pct20_tab)
qed

lemma replace_pct20_no_percent: "0x25 \<notin> set xs \<Longrightarrow> replace_pct20 xs = xs"
  by (induction xs) auto

lemma decimal_digit_not_percent: "d < 10 \<Longrightarrow> decimal_digit d \<noteq> 0x25"
proof -
  assume "d < 10"
  then have "d \<in> {0, 1, 2, 3, 4, 5, 6, 7, 8, 9}" by auto
  then show ?thesis by (auto simp: decimal_digit_def)
qed

lemma decimal_no_percent: "0x25 \<notin> set (decimal n)"
proof (induction n rule: decimal.induct)
  case (1 n)
  show ?case
  proof (cases "n < 10")
    case True
    then show ?thesis using decimal_digit_not_percent [of n] by (simp add: decimal.simps [of n])
  next
    case False
    then show ?thesis
      using "1.IH" decimal_digit_not_percent [of "n mod 10"]
      by (simp add: decimal.simps [of n])
  qed
qed

lemma replace_raw_token: "replace_pct20 (raw_token d) = delta_token d"
proof (cases d)
  case (Pair k t)
  then show ?thesis
    by (cases k) (simp_all add: replace_pct20_no_percent decimal_no_percent)
qed

lemma raw_pair: "raw (k, t) = (DiffType_value k, t)"
  by (simp add: raw_def)

lemma toDelta_loop_tokens:
  "list_all (\<lambda>d. fst d \<noteq> INSERT \<or> well_formed16 (snd d)) ds \<Longrightarrow>
   toDelta_loop (map raw ds) = Inr (map raw_token ds)"
proof (induction ds)
  case Nil
  then show ?case by simp
next
  case (Cons d ds)
  obtain k t where d: "d = (k, t)" by (cases d)
  from Cons have IH: "toDelta_loop (map raw ds) = Inr (map raw_token ds)" by simp
  show ?case
  proof (cases k)
    case INSERT
    with Cons.prems d have "well_formed16 t" by simp
    then obtain enc where "encodeURI t = Inr enc" using well_formed16_encodeURI by blast
    then show ?thesis using IH by (simp add: d INSERT raw_pair percent_encode_def)
  qed (simp_all add: d raw_pair IH)
qed

text \<open>
  C7, amended. For every diff sequence in which no INSERT text holds a surrogate code unit
  outside a pair, \<open>toDelta\<close> returns the tab-separated tokens of the entries in order:
  \<open>=n\<close> for an EQUAL entry and \<open>-n\<close> for a DELETE entry of text length \<open>n\<close>, and \<open>+\<close>
  followed by the percent-encoded text with every \<open>%20\<close> written as a space for an INSERT
  entry.
\<close>

theorem toDelta_tokens:
  assumes "list_all (\<lambda>d. fst d \<noteq> INSERT \<or> well_formed16 (snd d)) ds"
  shows "toDelta (map raw ds) = Inr (toDelta_spec ds)"
  by (simp add: toDelta_def toDelta_loop_tokens [OF assms] replace_pct20_join toDelta_spec_def
      comp_def replace_raw_token)

theorem toDelta_tokens_witness:
  "list_all (\<lambda>d. fst d \<noteq> INSERT \<or> well_formed16 (snd d))
     [(EQUAL, [0x61, 0x62, 0x63]), (DELETE, [0x64, 0x65]),
      (INSERT, [0x69, 0x20, 0x25, 0xD83D, 0xDE00])]
   \<and> toDelta (map raw [(EQUAL, [0x61, 0x62, 0x63]), (DELETE, [0x64, 0x65]),
                       (INSERT, [0x69, 0x20, 0x25, 0xD83D, 0xDE00])])
     = Inr [0x3D, 0x33, 0x09, 0x2D, 0x32, 0x09, 0x2B, 0x69, 0x20,
            0x25, 0x32, 0x35, 0x25, 0x46, 0x30, 0x25, 0x39, 0x46, 0x25, 0x39, 0x38,
            0x25, 0x38, 0x30]"
proof -
  have wf: "list_all (\<lambda>d. fst d \<noteq> INSERT \<or> well_formed16 (snd d))
     [(EQUAL, [0x61, 0x62, 0x63]), (DELETE, [0x64, 0x65]),
      (INSERT, [0x69, 0x20, 0x25, 0xD83D, 0xDE00])]"
    by (simp add: isHighSurrogate_def isLowSurrogate_def)
  show ?thesis
    using wf toDelta_tokens [OF wf]
    by (simp add: toDelta_spec_def percent_encode_def uri_unescaped_def isHighSurrogate_def
        isLowSurrogate_def percent_code_point_def utf8_octets_def percent_octet_def
        hex_digit_def decimal.simps decimal_digit_def)
qed

text \<open>
  C7 as stated fails: on an INSERT text that holds a lone surrogate, \<open>encodeURI\<close> raises
  URIError and \<open>toDelta\<close> produces no token at all.
\<close>

theorem toDelta_lone_surrogate:
  "toDelta (map raw [(EQUAL, [0x61]), (INSERT, [0xD83D])]) = Inl URIError"
  by (simp add: toDelta_def raw_def uri_unescaped_def isLowSurrogate_def isHighSurrogate_def)

section \<open>Properties of diff\<close>

subsection \<open>Scripts that need no repair\<close>

lemma repair_entry_clean:
  "i < length ds \<Longrightarrow> \<not> needs_repair (ds ! i) \<Longrightarrow> repair_entry ds i = Inr ds"
  by (cases "ds ! i") (auto simp: repair_entry_def needs_repair_def bind_def Let_def)

lemma repair_loop_clean:
  "list_all (\<lambda>d. \<not> needs_repair d) ds \<Longrightarrow> repair_loop ds i = Some (Inr ds)"
proof (induction "length ds - i" arbitrary: i)
  case 0
  then show ?case by (simp add: repair_loop.simps)
next
  case (Suc n)
  then have i: "i < length ds" by simp
  with Suc.prems have "\<not> needs_repair (ds ! i)" by (simp add: list_all_length)
  then have "repair_entry ds i = Inr ds" using i by (rule repair_entry_clean [rotated])
  moreover have "repair_loop ds (i + 1) = Some (Inr ds)"
    using Suc.hyps(1) [of "i + 1"] Suc.hyps(2) Suc.prems by simp
  ultimately show ?case using i by (subst repair_loop.simps) simp
qed

lemma remove_loop_no_empty: "no_empty ds \<Longrightarrow> remove_loop ds i = ds"
proof (induction "length ds - i" arbitrary: i)
  case 0
  then show ?case by (simp add: remove_loop.simps)
next
  case (Suc n)
  then have i: "i < length ds" by simp
  with Suc.prems have "snd (ds ! i) \<noteq> []" by (simp add: no_empty_def list_all_length)
  moreover have "remove_loop ds (i + 1) = ds"
    using Suc.hyps(1) [of "i + 1"] Suc.hyps(2) Suc.prems by simp
  ultimately show ?case using i by (subst remove_loop.simps) simp
qed

lemma adjust_clean:
  "list_all (\<lambda>d. \<not> needs_repair d) ds \<Longrightarrow> no_empty ds \<Longrightarrow>
   adjustDiffForSurrogatePairs ds = Some (Inr ds)"
  by (simp add: adjustDiffForSurrogatePairs_def repair_loop_clean remove_loop_no_empty)

subsection \<open>Evaluating the repair on concrete scripts\<close>

lemmas adjust_eval =
  adjustDiffForSurrogatePairs_def
  repair_loop.simps repair_entry_def deisolateChar_def scan.simps remove_loop.simps
  move_to_equal_def both_share_def take_shared_def push_char_def
  bind_def get_text_def set_text_def hasSharedChar_def new_entry_def
  splice_insert_def splice_delete_def splitChar_def combineChar_def
  substring_def substring_from_def char_at_def
  isHighSurrogate_def isLowSurrogate_def

lemma internal_diff_same: "internal_diff h a a options = (if a \<noteq> [] then [(EQUAL, a)] else [])"
  by (simp add: internal_diff_def)

subsection \<open>Equal texts\<close>

text \<open>
  C6, amended. For every non-empty string \<open>a\<close> that does not begin with a low surrogate and
  does not end with a high surrogate, \<open>diff(a, a)\<close> returns the single-entry script
  \<open>[(EQUAL, a)]\<close>; \<open>diff("", "")\<close> returns the empty script.
\<close>

theorem diff_same_text:
  assumes "a = [] \<or> (\<not> isLowSurrogate (hd a) \<and> \<not> isHighSurrogate (last a))"
  shows "diff h now (Some a) (Some a) opts = Some (Inr (if a = [] then [] else [(EQUAL, a)]))"
proof (cases "a = []")
  case True
  then show ?thesis
    by (simp add: diff_def internal_diff_same adjust_clean no_empty_def)
next
  case False
  with assms have "\<not> needs_repair (EQUAL, a)" by (simp add: needs_repair_def)
  then have "adjustDiffForSurrogatePairs [(EQUAL, a)] = Some (Inr [(EQUAL, a)])"
    using False by (intro adjust_clean) (simp_all add: no_empty_def)
  then show ?thesis using False by (simp add: diff_def internal_diff_same)
qed

theorem diff_same_text_witness:
  "([0x61, 0xD83D, 0xDE00] = [] \<or> (\<not> isLowSurrogate (hd [0x61, 0xD83D, 0xDE00])
      \<and> \<not> isHighSurrogate (last [0x61, 0xD83D, 0xDE00])))
   \<and> diff spec_helpers 0 (Some [0x61, 0xD83D, 0xDE00]) (Some [0x61, 0xD83D, 0xDE00]) None
       = Some (Inr [(EQUAL, [0x61, 0xD83D, 0xDE00])])
   \<and> diff spec_helpers 0 (Some []) (Some []) None = Some (Inr [])"
  using diff_same_text [of "[0x61, 0xD83D, 0xDE00]" spec_helpers 0 None]
    diff_same_text [of "[]" spec_helpers 0 None]
  by (simp add: isLowSurrogate_def isHighSurrogate_def)

text \<open>
  C6 as stated fails for a string that ends with a high surrogate: the repair moves that
  code unit out of the EQUAL entry into a new DELETE and a new INSERT.
\<close>

theorem diff_same_text_lone_surrogate:
  "diff spec_helpers 0 (Some [0x61, 0xD83D]) (Some [0x61, 0xD83D]) None
     = Some (Inr [(EQUAL, [0x61]), (DELETE, [0xD83D]), (INSERT, [0xD83D])])
   \<and> diff spec_helpers 0 (Some [0x61, 0xD83D]) (Some [0x61, 0xD83D]) None
     \<noteq> Some (Inr [(EQUAL, [0x61, 0xD83D])])"
proof -
  have "adjustDiffForSurrogatePairs [(EQUAL, [0x61, 0xD83D])]
      = Some (Inr [(EQUAL, [0x61]), (DELETE, [0xD83D]), (INSERT, [0xD83D])])"
    by (simp add: adjust_eval)
  then show ?thesis by (simp add: diff_def internal_diff_same)
qed

subsection \<open>The reconstructed texts\<close>

text \<open>
  C1, at a failing input. \<open>diff\<close> of the two-unit string DE00 D83D with itself returns
  DELETE D83D, INSERT DE00, DELETE DE00, INSERT D83D, whatever the imported functions
  are: the backward call of \<open>deisolateChar\<close> splices its new entries in at \<open>j = -1\<close>,
  before the last entry of the array. The EQUAL and DELETE texts of the result make
  D83D DE00, which is not the source text.
\<close>

theorem diff_breaks_source_text:
  "diff h now (Some [0xDE00, 0xD83D]) (Some [0xDE00, 0xD83D]) opts
     = Some (Inr [(DELETE, [0xD83D]), (INSERT, [0xDE00]), (DELETE, [0xDE00]), (INSERT, [0xD83D])])
   \<and> text1 [(DELETE, [0xD83D]), (INSERT, [0xDE00]), (DELETE, [0xDE00]), (INSERT, [0xD83D])]
     = [0xD83D, 0xDE00]
   \<and> text1 [(DELETE, [0xD83D]), (INSERT, [0xDE00]), (DELETE, [0xDE00]), (INSERT, [0xD83D])]
     \<noteq> [0xDE00, 0xD83D]"
proof -
  have "adjustDiffForSurrogatePairs [(EQUAL, [0xDE00, 0xD83D])]
      = Some (Inr [(DELETE, [0xD83D]), (INSERT, [0xDE00]), (DELETE, [0xDE00]), (INSERT, [0xD83D])])"
    by (simp add: adjust_eval)
  then show ?thesis by (simp add: diff_def internal_diff_same text1_def)
qed

text \<open>
  C9, at three failing inputs. On EQUAL DE00 78, INSERT 79 (the script of section 4.2 for
  the texts DE00 78 and DE00 78 79) the backward call has nothing before the EQUAL entry
  and splices INSERT DE00 and DELETE DE00 in after it: both reconstructions change. On
  EQUAL 61 D83D, INSERT 64 65, DELETE 66 65 the special case tests the last characters of
  the INSERT and the DELETE and then takes away their first ones: the EQUAL and DELETE
  texts make 61 D83D 66 65 before the repair and 61 D83D 64 65 after it. On
  EQUAL 62 D83D, INSERT DE01 D83E, EQUAL DE00, a script of two well-formed texts, the
  forward call on the first entry adds a DELETE D83D, and the backward call on the last
  one then finds an INSERT and a DELETE that begin alike and takes away their last
  characters: the source text 62 D83D DE00 becomes 62 D83E DE00.
\<close>

theorem repair_changes_texts:
  "adjustDiffForSurrogatePairs [(EQUAL, [0xDE00, 0x78]), (INSERT, [0x79])]
     = Some (Inr [(EQUAL, [0x78]), (INSERT, [0xDE00]), (DELETE, [0xDE00]), (INSERT, [0x79])])
   \<and> text1 [(EQUAL, [0xDE00, 0x78]), (INSERT, [0x79])] = [0xDE00, 0x78]
   \<and> text1 [(EQUAL, [0x78]), (INSERT, [0xDE00]), (DELETE, [0xDE00]), (INSERT, [0x79])]
       = [0x78, 0xDE00]
   \<and> text2 [(EQUAL, [0xDE00, 0x78]), (INSERT, [0x79])] = [0xDE00, 0x78, 0x79]
   \<and> text2 [(EQUAL, [0x78]), (INSERT, [0xDE00]), (DELETE, [0xDE00]), (INSERT, [0x79])]
       = [0x78, 0xDE00, 0x79]
   \<and> adjustDiffForSurrogatePairs
        [(EQUAL, [0x61, 0xD83D]), (INSERT, [0x64, 0x65]), (DELETE, [0x66, 0x65])]
     = Some (Inr [(EQUAL, [0x61, 0xD83D, 0x64]), (INSERT, [0x65]), (DELETE, [0x65])])
   \<and> text1 [(EQUAL, [0x61, 0xD83D]), (INSERT, [0x64, 0x65]), (DELETE, [0x66, 0x65])]
       = [0x61, 0xD83D, 0x66, 0x65]
   \<and> text1 [(EQUAL, [0x61, 0xD83D, 0x64]), (INSERT, [0x65]), (DELETE, [0x65])]
       = [0x61, 0xD83D, 0x64, 0x65]
   \<and> adjustDiffForSurrogatePairs
        [(EQUAL, [0x62, 0xD83D]), (INSERT, [0xDE01, 0xD83E]), (EQUAL, [0xDE00])]
     = Some (Inr [(EQUAL, [0x62]), (INSERT, [0xD83D, 0xDE01]), (EQUAL, [0xD83E, 0xDE00])])
   \<and> text1 [(EQUAL, [0x62, 0xD83D]), (INSERT, [0xDE01, 0xD83E]), (EQUAL, [0xDE00])]
       = [0x62, 0xD83D, 0xDE00]
   \<and> text1 [(EQUAL, [0x62]), (INSERT, [0xD83D, 0xDE01]), (EQUAL, [0xD83E, 0xDE00])]
       = [0x62, 0xD83E, 0xDE00]"
proof -
  have a: "adjustDiffForSurrogatePairs [(EQUAL, [0xDE00, 0x78]), (INSERT, [0x79])]
     = Some (Inr [(EQUAL, [0x78]), (INSERT, [0xDE00]), (DELETE, [0xDE00]), (INSERT, [0x79])])"
    by (simp add: adjust_eval)
  have b: "adjustDiffForSurrogatePairs
        [(EQUAL, [0x61, 0xD83D]), (INSERT, [0x64, 0x65]), (DELETE, [0x66, 0x65])]
     = Some (Inr [(EQUAL, [0x61, 0xD83D, 0x64]), (INSERT, [0x65]), (DELETE, [0x65])])"
    by (simp add: adjust_eval)
  have c: "adjustDiffForSurrogatePairs
        [(EQUAL, [0x62, 0xD83D]), (INSERT, [0xDE01, 0xD83E]), (EQUAL, [0xDE00])]
     = Some (Inr [(EQUAL, [0x62]), (INSERT, [0xD83D, 0xDE01]), (EQUAL, [0xD83E, 0xDE00])])"
    by (simp add: adjust_eval)
  show ?thesis by (simp add: a b c text1_def text2_def)
qed

subsection \<open>Empty entries and adjacent entries of one kind\<close>

text \<open>
  C5, at a failing input. \<open>diff\<close> of the two-unit string DE00 DE00 with itself returns
  DELETE with the empty text, then EQUAL DE00 DE00, whatever the imported functions are.
  The first loop of \<open>adjustDiffForSurrogatePairs\<close> leaves INSERT and DELETE, both with
  the empty text, before the EQUAL entry. The second loop, under the comment
  \<open>Remove any empty diffs\<close>, splices the INSERT out at \<open>i = 0\<close> and increments \<open>i\<close> all the
  same: the DELETE that moved into position \<open>0\<close> is never looked at, and an entry with
  empty text is returned.
\<close>

theorem diff_keeps_empty_entry:
  "diff h now (Some [0xDE00, 0xDE00]) (Some [0xDE00, 0xDE00]) opts
     = Some (Inr [(DELETE, []), (EQUAL, [0xDE00, 0xDE00])])
   \<and> \<not> no_empty [(DELETE, []), (EQUAL, [0xDE00, 0xDE00 :: char16])]"
proof -
  have "adjustDiffForSurrogatePairs [(EQUAL, [0xDE00, 0xDE00])]
      = Some (Inr [(DELETE, []), (EQUAL, [0xDE00, 0xDE00])])"
    by (simp add: adjust_eval)
  then show ?thesis by (simp add: diff_def internal_diff_same no_empty_def)
qed

text \<open>
  The first and the second loop of that call, one by one: the array after the first,
  and what the second makes of it.
\<close>

lemma repair_loop_leaves_empty_entries:
  "repair_loop [(EQUAL, [0xDE00, 0xDE00])] 0
     = Some (Inr [(INSERT, []), (DELETE, []), (EQUAL, [0xDE00, 0xDE00])])"
  by (simp add: adjust_eval)

lemma remove_loop_skips_entry:
  "remove_loop [(INSERT, []), (DELETE, []), (EQUAL, [0xDE00, 0xDE00])] 0
     = [(DELETE, []), (EQUAL, [0xDE00, 0xDE00])]"
  by (simp add: remove_loop.simps splice_delete_def)

text \<open>
  The entries that the repair makes are not merged with their neighbours either. For the
  texts 79 D83D and D83D, with the imported functions as the specification describes
  them, the script after merge cleanup is DELETE 79, EQUAL D83D; the repair empties the
  EQUAL entry into a new DELETE and a new INSERT after it, the empty entry is removed, and
  the result begins with two DELETE entries.
\<close>

lemma merge_pass_y_high:
  "merge_pass [(DELETE, [0x79]), (EQUAL, [0xD83D])] = [(DELETE, [0x79]), (EQUAL, [0xD83D])]"
  by (simp add: merge_pass_def drop_empty_def)

lemma internal_diff_y_high:
  "internal_diff spec_helpers [0x79, 0xD83D] [0xD83D] options
     = [(DELETE, [0x79]), (EQUAL, [0xD83D])]"
proof -
  have p: "commonPrefix_spec [0x79, 0xD83D] [0xD83D] = 0"
    by (simp add: commonPrefix_spec_def splits_pair_def)
  have s: "commonSuffix_spec [0x79, 0xD83D] [0xD83D] = 1"
    by (simp add: commonSuffix_spec_def splits_pair_def isHighSurrogate_def isLowSurrogate_def)
  have c: "compute_spec [0x79] [] options = [(DELETE, [0x79])]"
    by (simp add: compute_spec_def)
  have m: "cleanupMerge_spec [(DELETE, [0x79]), (EQUAL, [0xD83D])]
             = [(DELETE, [0x79]), (EQUAL, [0xD83D])]"
    by (simp add: cleanupMerge_spec_def merge_pass_y_high)
  show ?thesis
    by (simp add: internal_diff_def spec_helpers_def p s c m substring_def substring_from_def)
qed

lemma diff_adjacent_deletes:
  "diff spec_helpers 0 (Some [0x79, 0xD83D]) (Some [0xD83D]) None
     = Some (Inr [(DELETE, [0x79]), (DELETE, [0xD83D]), (INSERT, [0xD83D])])
   \<and> \<not> no_adjacent_same [(DELETE, [0x79]), (DELETE, [0xD83D]), (INSERT, [0xD83D])]"
proof -
  have "adjustDiffForSurrogatePairs [(DELETE, [0x79]), (EQUAL, [0xD83D])]
     = Some (Inr [(DELETE, [0x79]), (DELETE, [0xD83D]), (INSERT, [0xD83D])])"
    by (simp add: adjust_eval)
  then show ?thesis by (simp add: diff_def internal_diff_y_high)
qed

subsection \<open>The deadline\<close>

text \<open>
  C3, at the failing input. With the timeout option \<open>0\<close>, \<open>opts.timeout || 1.0\<close> is
  \<open>1.0\<close>: the deadline is one second after the call, the same as with the timeout option
  \<open>1\<close> and as with none, and not the \<open>+Infinity\<close> that a negative timeout gives.
\<close>

theorem timeout_zero_deadline:
  "deadline (createInternalOpts 1700000000000 \<lparr>opt_checkLines = None, opt_timeout = Some 0\<rparr>)
     = Num 1700000001000
   \<and> deadline (createInternalOpts 1700000000000 \<lparr>opt_checkLines = None, opt_timeout = Some 1\<rparr>)
     = Num 1700000001000
   \<and> deadline (createInternalOpts 1700000000000 \<lparr>opt_checkLines = None, opt_timeout = Some (-1)\<rparr>)
     = PosInfinity"
  by (simp add: createInternalOpts_def createDeadLine_def Number_MAX_VALUE_def)

subsection \<open>The repair loop ends\<close>

lemma weight_pos: "1 \<le> weight d"
  by (simp add: weight_def)

lemma tailw_nonneg: "0 \<le> tailw ds m"
  unfolding tailw_def by (rule sum_list_nonneg) (use weight_pos in \<open>auto intro: order_trans [of 0 1]\<close>)

lemma tailw_beyond: "length ds \<le> m \<Longrightarrow> tailw ds m = 0"
  by (simp add: tailw_def)

lemma tailw_step: "m < length ds \<Longrightarrow> tailw ds m = weight (ds ! m) + tailw ds (Suc m)"
  by (simp add: tailw_def Cons_nth_drop_Suc [symmetric])

lemma tailw_update:
  "k < length ds \<Longrightarrow>
   tailw (ds[k := e]) m = (if m \<le> k then tailw ds m + weight e - weight (ds ! k) else tailw ds m)"
proof (induction ds arbitrary: k m)
  case Nil
  then show ?case by simp
next
  case (Cons d ds)
  show ?case
  proof (cases m)
    case 0
    show ?thesis
    proof (cases k)
      case 0
      with \<open>m = 0\<close> show ?thesis by (simp add: tailw_def)
    next
      case (Suc k')
      with Cons.prems have "k' < length ds" by simp
      from Cons.IH [of k' 0] this Suc \<open>m = 0\<close> show ?thesis by (simp add: tailw_def)
    qed
  next
    case (Suc m')
    show ?thesis
    proof (cases k)
      case 0
      with Suc show ?thesis by (simp add: tailw_def)
    next
      case (Suc k')
      with Cons.prems have "k' < length ds" by simp
      from Cons.IH [of k' m'] this Suc \<open>m = Suc m'\<close> show ?thesis by (simp add: tailw_def)
    qed
  qed
qed

lemma tailw_insert:
  "p \<le> length ds \<Longrightarrow>
   tailw (take p ds @ e # drop p ds) m
     = (if m \<le> p then tailw ds m + weight e else tailw ds (m - 1))"
proof (cases "m \<le> p")
  case True
  assume p: "p \<le> length ds"
  have "drop m (take p ds @ e # drop p ds) = drop m (take p ds) @ e # drop p ds"
    using True p by simp
  moreover have "drop m ds = drop m (take p ds) @ drop p ds"
    using True p by (metis append_take_drop_id drop_append length_take min.absorb2 diff_is_0_eq drop0)
  ultimately show ?thesis using True by (simp add: tailw_def)
next
  case False
  assume p: "p \<le> length ds"
  from False have "drop m (take p ds @ e # drop p ds) = drop (m - p - 1) (drop p ds)"
    using p by (simp add: drop_Cons')
  also have "\<dots> = drop (m - 1) ds" using False by simp
  finally show ?thesis using False by (simp add: tailw_def)
qed

lemma found_after_step: "found_after ds i j k idx \<Longrightarrow> found_after ds i (j + 1) k idx"
  by (auto simp: found_after_def split: option.splits)

lemma scan_forward:
  "int i < j \<Longrightarrow> j \<le> int (length ds) \<Longrightarrow>
   found_after ds i j INSERT ins \<Longrightarrow> found_after ds i j DELETE del \<Longrightarrow>
   forward_post ds i (scan ds Forward j ins del)"
proof (induction "nat (int (length ds) - j)" arbitrary: j ins del rule: less_induct)
  case less
  show ?case
  proof (cases "j < int (length ds) \<and> (ins = None \<or> del = None)")
    case False
    with less.prems show ?thesis
      by (subst scan.simps) (auto simp: forward_post_def)
  next
    case True
    obtain op tx where e: "ds ! nat j = (op, tx)" by (cases "ds ! nat j")
    have j0: "0 \<le> j" using less.prems(1) by simp
    have IH: "\<And>ins' del'. found_after ds i (j + 1) INSERT ins' \<Longrightarrow>
        found_after ds i (j + 1) DELETE del' \<Longrightarrow>
        forward_post ds i (scan ds Forward (j + 1) ins' del')"
      using less.hyps [of "j + 1"] less.prems(1) True by simp
    have new: "\<And>k. op = k \<Longrightarrow> tx \<noteq> [] \<Longrightarrow> found_after ds i (j + 1) k (Some (nat j))"
      using True e less.prems(1) by (auto simp: found_after_def entry_of_def)
    note step = found_after_step [OF less.prems(3)] found_after_step [OF less.prems(4)]
    show ?thesis
    proof (cases "tx = []")
      case True
      then show ?thesis
        using \<open>j < _ \<and> _\<close> j0 e IH [OF step] by (subst scan.simps) simp
    next
      case False
      show ?thesis
      proof (cases op)
        case DELETE
        have "forward_post ds i (scan ds Forward (j + 1) ins
                (if del = None then Some (nat j) else del))"
          using IH [OF step(1)] new [OF DELETE False] step(2) by simp
        then show ?thesis
          using True j0 e False DELETE by (subst scan.simps) simp
      next
        case INSERT
        have "forward_post ds i (scan ds Forward (j + 1)
                (if ins = None then Some (nat j) else ins) del)"
          using IH [OF _ step(2)] new [OF INSERT False] step(1) by simp
        then show ?thesis
          using True j0 e False INSERT by (subst scan.simps) simp
      next
        case EQUAL
        have "entry_of ds EQUAL (nat j)"
          using True e False EQUAL j0 by (auto simp: entry_of_def)
        then show ?thesis
          using True j0 e False EQUAL less.prems
          by (subst scan.simps) (auto simp: forward_post_def)
      qed
    qed
  qed
qed

lemma found_before_step: "found_before ds i j k idx \<Longrightarrow> found_before ds i (j - 1) k idx"
  by (auto simp: found_before_def split: option.splits)

lemma scan_backward:
  "- 1 \<le> j \<Longrightarrow> j < int i \<Longrightarrow> i \<le> length ds \<Longrightarrow>
   found_before ds i j INSERT ins \<Longrightarrow> found_before ds i j DELETE del \<Longrightarrow>
   backward_post ds i (scan ds Backward j ins del)"
proof (induction "nat (j + 1)" arbitrary: j ins del rule: less_induct)
  case less
  show ?case
  proof (cases "0 \<le> j \<and> (ins = None \<or> del = None)")
    case False
    with less.prems show ?thesis
      by (subst scan.simps) (auto simp: backward_post_def)
  next
    case True
    obtain op tx where e: "ds ! nat j = (op, tx)" by (cases "ds ! nat j")
    have jl: "j < int (length ds)" using less.prems(2,3) by simp
    have IH: "\<And>ins' del'. found_before ds i (j - 1) INSERT ins' \<Longrightarrow>
        found_before ds i (j - 1) DELETE del' \<Longrightarrow>
        backward_post ds i (scan ds Backward (j - 1) ins' del')"
      using less.hyps [of "j - 1"] less.prems(2,3) True by simp
    have new: "\<And>k. op = k \<Longrightarrow> tx \<noteq> [] \<Longrightarrow> found_before ds i (j - 1) k (Some (nat j))"
      using True e less.prems(2) jl by (auto simp: found_before_def entry_of_def)
    note step = found_before_step [OF less.prems(4)] found_before_step [OF less.prems(5)]
    show ?thesis
    proof (cases "tx = []")
      case True
      then show ?thesis
        using \<open>0 \<le> j \<and> _\<close> jl e IH [OF step] by (subst scan.simps) simp
    next
      case False
      show ?thesis
      proof (cases op)
        case DELETE
        have "backward_post ds i (scan ds Backward (j - 1) ins
                (if del = None then Some (nat j) else del))"
          using IH [OF step(1)] new [OF DELETE False] step(2) by simp
        then show ?thesis
          using True jl e False DELETE by (subst scan.simps) simp
      next
        case INSERT
        have "backward_post ds i (scan ds Backward (j - 1)
                (if ins = None then Some (nat j) else ins) del)"
          using IH [OF _ step(2)] new [OF INSERT False] step(1) by simp
        then show ?thesis
          using True jl e False INSERT by (subst scan.simps) simp
      next
        case EQUAL
        have "entry_of ds EQUAL (nat j)"
          using True e False EQUAL jl by (auto simp: entry_of_def)
        then show ?thesis
          using True jl e False EQUAL less.prems
          by (subst scan.simps) (auto simp: backward_post_def)
      qed
    qed
  qed
qed

lemma get_text_in: "k < length ds \<Longrightarrow> get_text ds k = Inr (snd (ds ! k))"
  by (simp add: get_text_def)

lemma set_text_in: "k < length ds \<Longrightarrow> set_text ds k t = Inr (ds[k := (fst (ds ! k), t)])"
  by (simp add: set_text_def)

lemma bind_Inr [simp]: "bind (Inr x) f = f x"
  by (simp add: bind_def)

lemma splitChar_Forward: "t \<noteq> [] \<Longrightarrow> splitChar t Forward = (butlast t, Some (last t))"
proof -
  assume t: "t \<noteq> []"
  then have "nat (int (length t) - 1) = length t - 1" by (cases t) simp_all
  then show ?thesis
    using t by (simp add: splitChar_def substring_def char_at_def butlast_conv_take last_conv_nth)
qed

lemma splitChar_Backward: "t \<noteq> [] \<Longrightarrow> splitChar t Backward = (tl t, Some (hd t))"
  by (cases t) (simp_all add: splitChar_def substring_from_def substring_def char_at_def)

lemma length_combineChar [simp]: "length (combineChar t (Some c) d) = Suc (length t)"
  by (simp add: combineChar_def)

lemma hasSharedChar_in:
  "x < length ds \<Longrightarrow> y < length ds \<Longrightarrow> \<exists>b. hasSharedChar ds x y d = Inr b"
  by (simp add: hasSharedChar_def get_text_in)

lemma splice_insert_pos:
  "0 \<le> j \<Longrightarrow> j \<le> int (length ds) \<Longrightarrow> splice_insert ds j e = insert_at (nat j) e ds"
  by (simp add: splice_insert_def insert_at_def)

lemma splice_insert_last:
  "ds \<noteq> [] \<Longrightarrow> splice_insert ds (- 1) e = insert_at (length ds - 1) e ds"
  by (cases ds) (simp_all add: splice_insert_def insert_at_def nat_diff_distrib)

lemma length_insert_at [simp]: "length (insert_at p e xs) = Suc (length xs)"
  by (simp add: insert_at_def)

lemma nth_insert_at_lt: "k < p \<Longrightarrow> p \<le> length xs \<Longrightarrow> insert_at p e xs ! k = xs ! k"
  by (simp add: insert_at_def nth_append)

lemma nth_insert_at_eq: "p \<le> length xs \<Longrightarrow> insert_at p e xs ! p = e"
  by (simp add: insert_at_def nth_append)

lemma nth_insert_at_gt: "p < k \<Longrightarrow> k \<le> length xs \<Longrightarrow> insert_at p e xs ! k = xs ! (k - 1)"
  by (cases k) (auto simp: insert_at_def nth_append nth_Cons' min_def)

lemma tailw_insert_at:
  "p \<le> length ds \<Longrightarrow>
   tailw (insert_at p e ds) m = (if m \<le> p then tailw ds m + weight e else tailw ds (m - 1))"
  unfolding insert_at_def by (rule tailw_insert)

lemma weight_EQUAL [simp]: "weight (EQUAL, t) = 1 + 5 * int (length t)"
  by (simp add: weight_def)

lemma weight_edit: "k \<noteq> EQUAL \<Longrightarrow> weight (k, t) = 1 + int (length t)"
  by (simp add: weight_def)

lemma move_to_equal_forward:
  assumes "i < length ds" "ds ! i = (EQUAL, t)" "t \<noteq> []" "i < k" "entry_of ds EQUAL k"
  shows "\<exists>ds1. move_to_equal ds i k Forward = Inr ds1 \<and> length ds1 = length ds
       \<and> ds1 ! i = (EQUAL, butlast t) \<and> tailw ds1 (Suc i) = tailw ds (Suc i) + 5"
proof -
  from assms(5) have k: "k < length ds" "fst (ds ! k) = EQUAL" by (auto simp: entry_of_def)
  obtain tk where ek: "ds ! k = (EQUAL, tk)" using k(2) by (cases "ds ! k") auto
  let ?ds1 = "ds[i := (EQUAL, butlast t), k := (EQUAL, combineChar tk (Some (last t)) Backward)]"
  have "move_to_equal ds i k Forward = Inr ?ds1"
    using assms k ek by (simp add: move_to_equal_def get_text_in set_text_in splitChar_Forward)
  moreover have "tailw ?ds1 (Suc i) = tailw ds (Suc i) + 5"
    using assms k ek by (simp add: tailw_update)
  moreover have "?ds1 ! i = (EQUAL, butlast t)" using assms k by simp
  ultimately show ?thesis by simp
qed

lemma take_shared_forward:
  assumes "i < length ds" "ds ! i = (EQUAL, t)"
    and "i < x" "entry_of ds INSERT x" "i < y" "entry_of ds DELETE y"
  shows "\<exists>ds1 c. take_shared ds i x y Forward = Inr ds1 \<and> length ds1 = length ds
       \<and> ds1 ! i = (EQUAL, t @ [c]) \<and> tailw ds1 (Suc i) + 2 = tailw ds (Suc i)"
proof -
  from assms have x: "x < length ds" "fst (ds ! x) = INSERT" "snd (ds ! x) \<noteq> []"
    and y: "y < length ds" "fst (ds ! y) = DELETE" "snd (ds ! y) \<noteq> []"
    by (auto simp: entry_of_def)
  obtain tx where ex: "ds ! x = (INSERT, tx)" "tx \<noteq> []" using x by (cases "ds ! x") auto
  obtain ty where ey: "ds ! y = (DELETE, ty)" "ty \<noteq> []" using y by (cases "ds ! y") auto
  have neq: "x \<noteq> y" using ex ey by auto
  have lx: "int (length (tl tx)) = int (length tx) - 1" using ex(2) by (cases tx) simp_all
  have ly: "int (length (tl ty)) = int (length ty) - 1" using ey(2) by (cases ty) simp_all
  note lens = lx ly
  let ?r = "ds[x := (INSERT, tl tx), y := (DELETE, tl ty), i := (EQUAL, t @ [hd tx])]"
  have "take_shared ds i x y Forward = Inr ?r"
    using assms x y ex ey neq
    by (simp add: take_shared_def get_text_in set_text_in splitChar_Backward combineChar_def)
  moreover have "tailw ?r (Suc i) + 2 = tailw ds (Suc i)"
    using assms x y ex ey neq lens by (simp add: tailw_update weight_edit del: length_tl)
  moreover have "?r ! i = (EQUAL, t @ [hd tx])" using assms by simp
  ultimately show ?thesis by auto
qed

lemma push_char_forward:
  assumes i: "i < length ds" and e: "ds ! i = (EQUAL, t)" and t: "t \<noteq> []"
    and j: "int i < j" "j \<le> int (length ds)"
    and fi: "found_after ds i j INSERT ins" and fd: "found_after ds i j DELETE del"
  shows "\<exists>ds1. push_char ds i j ins del Forward = Inr ds1 \<and> length ds \<le> length ds1
       \<and> ds1 ! i = (EQUAL, butlast t) \<and> tailw ds1 (Suc i) \<le> tailw ds (Suc i) + 4"
proof -
  let ?c = "last t"
  let ?ds0 = "ds[i := (EQUAL, butlast t)]"
  have p: "nat j \<le> length ds" "Suc i \<le> nat j" "i < nat j" "0 \<le> j" using j by auto
  have tw0: "tailw ?ds0 (Suc i) = tailw ds (Suc i)" using i by (simp add: tailw_update)
  show ?thesis
  proof (cases ins)
    case None
    note insN = None
    let ?dsA = "insert_at (nat j) (INSERT, [?c]) ?ds0"
    have twA: "tailw ?dsA (Suc i) = tailw ds (Suc i) + 2"
      using p tw0 by (simp add: tailw_insert_at weight_edit)
    have nA: "?dsA ! i = (EQUAL, butlast t)" using p i by (simp add: nth_insert_at_lt)
    show ?thesis
    proof (cases del)
      case None
      let ?r = "insert_at (nat j) (DELETE, [?c]) ?dsA"
      have "push_char ds i j ins del Forward = Inr ?r"
        using i e t j p insN None
        by (simp add: push_char_def get_text_in set_text_in splitChar_Forward new_entry_def
            splice_insert_pos)
      moreover have "tailw ?r (Suc i) = tailw ds (Suc i) + 4"
        using p twA by (simp add: tailw_insert_at weight_edit)
      moreover have "?r ! i = (EQUAL, butlast t)" using p i nA by (simp add: nth_insert_at_lt)
      ultimately show ?thesis by simp
    next
      case (Some y)
      with fd have y: "i < y" "int y < j" "y < length ds" "fst (ds ! y) = DELETE"
        by (auto simp: found_after_def entry_of_def)
      obtain ty where ey: "ds ! y = (DELETE, ty)" using y by (cases "ds ! y") auto
      have eyA: "?dsA ! y = (DELETE, ty)" using y p ey by (simp add: nth_insert_at_lt)
      let ?r = "?dsA[y := (DELETE, combineChar ty (Some ?c) Backward)]"
      have "push_char ds i j ins del Forward = Inr ?r"
        using i e t j p insN Some y eyA
        by (simp add: push_char_def get_text_in set_text_in splitChar_Forward new_entry_def
            splice_insert_pos)
      moreover have "tailw ?r (Suc i) = tailw ds (Suc i) + 3"
        using p twA y eyA by (simp add: tailw_update weight_edit)
      moreover have "?r ! i = (EQUAL, butlast t)" using p i nA y by simp
      ultimately show ?thesis by simp
    qed
  next
    case (Some x)
    note insS = Some
    with fi have x: "i < x" "int x < j" "x < length ds" "fst (ds ! x) = INSERT"
      by (auto simp: found_after_def entry_of_def)
    obtain tx where ex: "ds ! x = (INSERT, tx)" using x by (cases "ds ! x") auto
    let ?dsA = "?ds0[x := (INSERT, combineChar tx (Some ?c) Backward)]"
    have twA: "tailw ?dsA (Suc i) = tailw ds (Suc i) + 1"
      using x ex i tw0 by (simp add: tailw_update weight_edit)
    have nA: "?dsA ! i = (EQUAL, butlast t)" using x i by simp
    show ?thesis
    proof (cases del)
      case None
      let ?r = "insert_at (nat j) (DELETE, [?c]) ?dsA"
      have "push_char ds i j ins del Forward = Inr ?r"
        using i e t j p insS None x ex
        by (simp add: push_char_def get_text_in set_text_in splitChar_Forward new_entry_def
            splice_insert_pos)
      moreover have "tailw ?r (Suc i) = tailw ds (Suc i) + 3"
        using p twA by (simp add: tailw_insert_at weight_edit)
      moreover have "?r ! i = (EQUAL, butlast t)" using p i nA by (simp add: nth_insert_at_lt)
      ultimately show ?thesis by simp
    next
      case (Some y)
      with fd have y: "i < y" "int y < j" "y < length ds" "fst (ds ! y) = DELETE"
        by (auto simp: found_after_def entry_of_def)
      obtain ty where ey: "ds ! y = (DELETE, ty)" using y by (cases "ds ! y") auto
      have neq: "x \<noteq> y" using ex ey by auto
      let ?r = "?dsA[y := (DELETE, combineChar ty (Some ?c) Backward)]"
      have "push_char ds i j ins del Forward = Inr ?r"
        using i e t j p insS Some x ex y ey neq
        by (simp add: push_char_def get_text_in set_text_in splitChar_Forward new_entry_def)
      moreover have "tailw ?r (Suc i) = tailw ds (Suc i) + 2"
        using p twA x y ey neq by (simp add: tailw_update weight_edit)
      moreover have "?r ! i = (EQUAL, butlast t)" using p i nA y by simp
      ultimately show ?thesis by simp
    qed
  qed
qed

lemma move_to_equal_backward:
  assumes "i < length ds" "ds ! i = (EQUAL, t)" "t \<noteq> []" "k < i"
  shows "\<exists>ds1. move_to_equal ds i k Backward = Inr ds1
       \<and> tailw ds1 (Suc i) = tailw ds (Suc i)"
  using assms
  by (simp add: move_to_equal_def get_text_in set_text_in splitChar_Backward tailw_update)

lemma take_shared_backward:
  assumes "i < length ds" "x < i" "y < i"
  shows "\<exists>ds1. take_shared ds i x y Backward = Inr ds1
       \<and> tailw ds1 (Suc i) = tailw ds (Suc i)"
proof -
  obtain a b where sx: "splitChar (snd (ds ! x)) Forward = (a, b)" by (cases "splitChar (snd (ds ! x)) Forward")
  obtain c d where sy: "splitChar (snd (ds ! y)) Forward = (c, d)" by (cases "splitChar (snd (ds ! y)) Forward")
  show ?thesis
    using assms sx sy
    by (simp add: take_shared_def get_text_in set_text_in tailw_update)
qed

lemma push_char_backward:
  assumes i: "i < length ds" and e: "ds ! i = (EQUAL, t)" and t: "t \<noteq> []"
    and j: "- 1 \<le> j" "j < int i"
    and fi: "found_before ds i j INSERT ins" and fd: "found_before ds i j DELETE del"
    and none: "ins = None \<and> del = None \<longrightarrow> j = - 1"
  shows "\<exists>ds2. push_char ds i j ins del Backward = Inr ds2
       \<and> (tailw ds2 (Suc i) \<le> tailw ds (Suc i) + 4
          \<or> tailw ds2 (Suc i) \<le> 5 * int (length t) - 4 + tailw ds (Suc i)
                + (if length ds = Suc i then 2 else 0))"
proof -
  let ?c = "hd t"
  let ?ds0 = "ds[i := (EQUAL, tl t)]"
  have lt: "int (length (tl t)) = int (length t) - 1" using t by (cases t) simp_all
  have tw0: "tailw ?ds0 (Suc i) = tailw ds (Suc i)" using i by (simp add: tailw_update)
  have tw0i: "tailw ?ds0 i = 5 * int (length t) - 4 + tailw ds (Suc i)"
    using i lt tw0 by (simp add: tailw_step [of i ?ds0] del: length_tl)
  have ne: "ds \<noteq> []" "?ds0 \<noteq> []" using i by auto
  have splice:
    "tailw (splice_insert xs j en) (Suc i)
       = (if j = - 1 \<and> Suc i < length xs then tailw xs (Suc i) + weight en else tailw xs i)"
    if "i < length xs" for xs :: "Diff list" and en
  proof (cases "j = - 1")
    case True
    have "xs \<noteq> []" using that by auto
    then have "splice_insert xs j en = insert_at (length xs - 1) en xs"
      using True by (simp add: splice_insert_last)
    then show ?thesis using that True by (auto simp: tailw_insert_at)
  next
    case False
    then have "0 \<le> j" using j by simp
    then have "splice_insert xs j en = insert_at (nat j) en xs"
      using j that by (simp add: splice_insert_pos)
    then show ?thesis using that j False \<open>0 \<le> j\<close> by (auto simp: tailw_insert_at)
  qed
  have splice_len: "length (splice_insert xs j en) = Suc (length xs)" for xs :: "Diff list" and en
    by (simp add: splice_insert_def Let_def)
  show ?thesis
  proof (cases ins)
    case None
    note insN = None
    let ?dsA = "splice_insert ?ds0 j (INSERT, [?c])"
    have twA: "tailw ?dsA (Suc i)
        = (if j = - 1 \<and> Suc i < length ds then tailw ds (Suc i) + 2 else tailw ?ds0 i)"
      using splice [of ?ds0 "(INSERT, [?c])"] i tw0 by (simp add: weight_edit)
    show ?thesis
    proof (cases del)
      case None
      with insN none have j1: "j = - 1" by simp
      let ?r = "splice_insert ?dsA j (DELETE, [?c])"
      have "push_char ds i j ins del Backward = Inr ?r"
        using i e t insN None
        by (simp add: push_char_def get_text_in set_text_in splitChar_Backward new_entry_def)
      moreover have "tailw ?r (Suc i) = tailw ?dsA (Suc i) + 2"
      proof -
        have lenA: "length ?dsA = Suc (length ds)" by (simp add: splice_len)
        then have iA: "i < length ?dsA" "Suc i < length ?dsA" using i by simp_all
        have "weight (DELETE, [?c]) = 2" by (simp add: weight_edit)
        with splice [OF iA(1), of "(DELETE, [?c])"] j1 iA(2) show ?thesis by presburger
      qed
      ultimately show ?thesis using twA tw0i j1 i by (auto split: if_splits)
    next
      case (Some y)
      with fd have y: "y < i" by (auto simp: found_before_def)
      have lenA: "length ?dsA = Suc (length ds)" by (simp add: splice_len)
      have upd: "bind (get_text ?dsA k) (\<lambda>td. set_text ?dsA k (combineChar td (Some ?c) Forward))
            = Inr (?dsA[k := (fst (?dsA ! k), combineChar (snd (?dsA ! k)) (Some ?c) Forward)])
          \<and> tailw (?dsA[k := (fst (?dsA ! k), combineChar (snd (?dsA ! k)) (Some ?c) Forward)])
                (Suc i) = tailw ?dsA (Suc i)"
        if "k \<le> i" for k
        using that i lenA by (simp add: get_text_in set_text_in tailw_update)
      have p0: "push_char ds i j ins del Backward =
          bind (get_text ?dsA (if j \<le> int y then y + 1 else y))
            (\<lambda>td. set_text ?dsA (if j \<le> int y then y + 1 else y)
                    (combineChar td (Some ?c) Forward))"
        using i e t insN Some
        by (simp add: push_char_def get_text_in set_text_in splitChar_Backward new_entry_def)
      have "(if j \<le> int y then y + 1 else y) \<le> i" using y by simp
      from upd [OF this] p0
      have "\<exists>ds2. push_char ds i j ins del Backward = Inr ds2
              \<and> tailw ds2 (Suc i) = tailw ?dsA (Suc i)"
        by metis
      then show ?thesis using twA tw0i i by (auto split: if_splits)
    qed
  next
    case (Some x)
    note insS = Some
    with fi have x: "x < i" by (auto simp: found_before_def)
    let ?dsA = "?ds0[x := (fst (?ds0 ! x), combineChar (snd (?ds0 ! x)) (Some ?c) Forward)]"
    have twA: "tailw ?dsA (Suc i) = tailw ds (Suc i)" "tailw ?dsA i = tailw ?ds0 i"
      using x i tw0 by (simp_all add: tailw_update)
    have pA: "bind (get_text ?ds0 x) (\<lambda>ti.
                bind (set_text ?ds0 x (combineChar ti (Some ?c) Forward)) (\<lambda>ds2. Inr (ds2, del)))
              = Inr (?dsA, del)"
      using x i by (simp add: get_text_in set_text_in)
    show ?thesis
    proof (cases del)
      case None
      let ?r = "splice_insert ?dsA j (DELETE, [?c])"
      have "push_char ds i j ins del Backward = Inr ?r"
        using i e t insS None pA
        by (simp add: push_char_def get_text_in set_text_in splitChar_Backward new_entry_def)
      moreover have "tailw ?r (Suc i)
          = (if j = - 1 \<and> Suc i < length ds then tailw ds (Suc i) + 2 else tailw ?ds0 i)"
        using splice [of ?dsA "(DELETE, [?c])"] i twA by (simp add: weight_edit)
      ultimately show ?thesis using tw0i i by (auto split: if_splits)
    next
      case (Some y)
      with fd have y: "y < i" by (auto simp: found_before_def)
      let ?r = "?dsA[y := (fst (?dsA ! y), combineChar (snd (?dsA ! y)) (Some ?c) Forward)]"
      have "push_char ds i j ins del Backward = Inr ?r"
        using i e t insS Some pA y
        by (simp add: push_char_def get_text_in set_text_in splitChar_Backward new_entry_def)
      moreover have "tailw ?r (Suc i) = tailw ds (Suc i)"
        using y i twA by (simp add: tailw_update)
      ultimately show ?thesis by auto
    qed
  qed
qed

lemma found_after_None [simp]: "found_after ds i j k None"
  by (simp add: found_after_def)

lemma found_before_None [simp]: "found_before ds i j k None"
  by (simp add: found_before_def)

lemma both_share_cases:
  assumes "\<And>x. ins = Some x \<Longrightarrow> x < length ds" "\<And>y. del = Some y \<Longrightarrow> y < length ds"
  shows "both_share ds ins del d = Inr False
       \<or> (\<exists>x y. ins = Some x \<and> del = Some y \<and> both_share ds ins del d = Inr True)"
proof (cases ins)
  case None
  then show ?thesis by (simp add: both_share_def)
next
  case (Some x)
  note insS = Some
  show ?thesis
  proof (cases del)
    case None
    with insS show ?thesis by (simp add: both_share_def)
  next
    case (Some y)
    from hasSharedChar_in [OF assms(1) [OF insS] assms(2) [OF Some], of d]
    obtain b where "hasSharedChar ds x y d = Inr b" by blast
    with insS Some show ?thesis by (cases b) (simp_all add: both_share_def)
  qed
qed

lemma deisolate_forward:
  assumes i: "i < length ds" and e: "ds ! i = (EQUAL, t)" and t: "t \<noteq> []"
  shows "\<exists>ds1 t1. deisolateChar ds i Forward = Inr ds1 \<and> i < length ds1
       \<and> ds1 ! i = (EQUAL, t1)
       \<and> ((length t1 + 1 = length t \<and> tailw ds1 (Suc i) \<le> tailw ds (Suc i) + 5)
          \<or> (length t1 = length t + 1 \<and> tailw ds1 (Suc i) + 2 \<le> tailw ds (Suc i)
              \<and> Suc i < length ds1))"
proof -
  have post: "forward_post ds i (scan ds Forward (int i + 1) None None)"
    using i by (intro scan_forward) simp_all
  have lt: "length (butlast t) + 1 = length t" using t by (cases t rule: rev_cases) simp_all
  show ?thesis
  proof (cases "scan ds Forward (int i + 1) None None")
    case (Consecutive k)
    with post have "i < k" "entry_of ds EQUAL k" by (simp_all add: forward_post_def)
    from move_to_equal_forward [OF i e t this] obtain ds1 where
      "move_to_equal ds i k Forward = Inr ds1" "length ds1 = length ds"
      "ds1 ! i = (EQUAL, butlast t)" "tailw ds1 (Suc i) = tailw ds (Suc i) + 5"
      by blast
    then show ?thesis using Consecutive i lt by (simp add: deisolateChar_def)
  next
    case (Stopped j ins del)
    with post have j: "int i < j" "j \<le> int (length ds)"
      and fi: "found_after ds i j INSERT ins" and fd: "found_after ds i j DELETE del"
      by (simp_all add: forward_post_def)
    have "both_share ds ins del Forward = Inr False
       \<or> (\<exists>x y. ins = Some x \<and> del = Some y \<and> both_share ds ins del Forward = Inr True)"
      using fi fd by (intro both_share_cases) (auto simp: found_after_def entry_of_def)
    then show ?thesis
    proof
      assume sh: "both_share ds ins del Forward = Inr False"
      from push_char_forward [OF i e t j fi fd] obtain ds1 where
        "push_char ds i j ins del Forward = Inr ds1" "length ds \<le> length ds1"
        "ds1 ! i = (EQUAL, butlast t)" "tailw ds1 (Suc i) \<le> tailw ds (Suc i) + 4"
        by blast
      then show ?thesis using Stopped sh i lt by (simp add: deisolateChar_def)
    next
      assume "\<exists>x y. ins = Some x \<and> del = Some y \<and> both_share ds ins del Forward = Inr True"
      then obtain x y where xy: "ins = Some x" "del = Some y"
        and sh: "both_share ds ins del Forward = Inr True" by blast
      from fi fd xy have "i < x" "entry_of ds INSERT x" "i < y" "entry_of ds DELETE y"
        by (auto simp: found_after_def)
      from take_shared_forward [OF i e this] obtain ds1 c where
        r: "take_shared ds i x y Forward = Inr ds1" "length ds1 = length ds"
        "ds1 ! i = (EQUAL, t @ [c])" "tailw ds1 (Suc i) + 2 = tailw ds (Suc i)"
        by blast
      have "Suc i < length ds1" using \<open>i < x\<close> \<open>entry_of ds INSERT x\<close> r(2)
        by (simp add: entry_of_def)
      then show ?thesis using Stopped sh xy r i by (simp add: deisolateChar_def)
    qed
  qed
qed

lemma deisolate_backward:
  assumes i: "i < length ds" and e: "ds ! i = (EQUAL, t)" and t: "t \<noteq> []"
  shows "\<exists>ds2. deisolateChar ds i Backward = Inr ds2
       \<and> (tailw ds2 (Suc i) \<le> tailw ds (Suc i) + 4
          \<or> tailw ds2 (Suc i) \<le> 5 * int (length t) - 4 + tailw ds (Suc i)
                + (if length ds = Suc i then 2 else 0))"
proof -
  have post: "backward_post ds i (scan ds Backward (int i - 1) None None)"
    using i by (intro scan_backward) simp_all
  show ?thesis
  proof (cases "scan ds Backward (int i - 1) None None")
    case (Consecutive k)
    with post have "k < i" by (simp add: backward_post_def)
    from move_to_equal_backward [OF i e t this] Consecutive
    show ?thesis by (auto simp: deisolateChar_def)
  next
    case (Stopped j ins del)
    with post have j: "- 1 \<le> j" "j < int i"
      and fi: "found_before ds i j INSERT ins" and fd: "found_before ds i j DELETE del"
      and none: "ins = None \<and> del = None \<longrightarrow> j = - 1"
      by (simp_all add: backward_post_def)
    have "both_share ds ins del Backward = Inr False
       \<or> (\<exists>x y. ins = Some x \<and> del = Some y \<and> both_share ds ins del Backward = Inr True)"
      using fi fd by (intro both_share_cases) (auto simp: found_before_def entry_of_def)
    then show ?thesis
    proof
      assume sh: "both_share ds ins del Backward = Inr False"
      from push_char_backward [OF i e t j fi fd none] Stopped sh
      show ?thesis by (simp add: deisolateChar_def)
    next
      assume "\<exists>x y. ins = Some x \<and> del = Some y \<and> both_share ds ins del Backward = Inr True"
      then obtain x y where xy: "ins = Some x" "del = Some y"
        and sh: "both_share ds ins del Backward = Inr True" by blast
      from fi fd xy have "x < i" "y < i" by (auto simp: found_before_def)
      from take_shared_backward [OF i this] Stopped sh xy
      show ?thesis by (auto simp: deisolateChar_def)
    qed
  qed
qed

lemma low_not_high: "isLowSurrogate c \<Longrightarrow> \<not> isHighSurrogate c"
  by (simp add: isLowSurrogate_def isHighSurrogate_def)

lemma repair_entry_step:
  assumes i: "i < length ds"
  shows "\<exists>ds'. repair_entry ds i = Inr ds' \<and> tailw ds' (Suc i) < tailw ds i"
proof -
  obtain k t where e: "ds ! i = (k, t)" by (cases "ds ! i")
  have here: "tailw ds i = weight (k, t) + tailw ds (Suc i)"
    using tailw_step [OF i] e by simp
  have drop1: "tailw ds (Suc i) < tailw ds i"
    using here weight_pos [of "(k, t)"] by simp
  show ?thesis
  proof (cases "t \<noteq> [] \<and> k = EQUAL \<and> (isHighSurrogate (last t) \<or> isLowSurrogate (hd t))")
    case False
    then have "repair_entry ds i = Inr ds"
      using e by (auto simp: repair_entry_def Let_def)
    then show ?thesis using drop1 by simp
  next
    case True
    then have t: "t \<noteq> []" and k: "k = EQUAL" by simp_all
    have e': "ds ! i = (EQUAL, t)" using e k by simp
    have w: "tailw ds i = 1 + 5 * int (length t) + tailw ds (Suc i)" using here k by simp
    have l1: "1 \<le> int (length t)" using t by (cases t) simp_all
    show ?thesis
    proof (cases "isHighSurrogate (last t)")
      case high: True
      from deisolate_forward [OF i e' t] obtain ds1 t1 where
        f: "deisolateChar ds i Forward = Inr ds1" "i < length ds1" "ds1 ! i = (EQUAL, t1)"
        and fw: "(length t1 + 1 = length t \<and> tailw ds1 (Suc i) \<le> tailw ds (Suc i) + 5)
          \<or> (length t1 = length t + 1 \<and> tailw ds1 (Suc i) + 2 \<le> tailw ds (Suc i)
              \<and> Suc i < length ds1)"
        by blast
      show ?thesis
      proof (cases "isLowSurrogate (hd t)")
        case False
        then have "repair_entry ds i = Inr ds1"
          using e' t high f by (simp add: repair_entry_def Let_def)
        then show ?thesis using fw w l1 by auto
      next
        case low: True
        have "hd t \<noteq> last t" using high low low_not_high by auto
        then have l2: "2 \<le> int (length t)"
          using t by (cases t rule: rev_cases; cases "butlast t") auto
        have t1: "t1 \<noteq> []" using fw l2 by auto
        from deisolate_backward [OF f(2,3) t1] obtain ds2 where
          b: "deisolateChar ds1 i Backward = Inr ds2"
          and bw: "tailw ds2 (Suc i) \<le> tailw ds1 (Suc i) + 4
             \<or> tailw ds2 (Suc i) \<le> 5 * int (length t1) - 4 + tailw ds1 (Suc i)
                  + (if length ds1 = Suc i then 2 else 0)"
          by blast
        have "repair_entry ds i = Inr ds2"
          using e' t high low f b by (simp add: repair_entry_def Let_def)
        moreover have "tailw ds2 (Suc i) < tailw ds i"
          using fw bw w l2 by (auto split: if_splits)
        ultimately show ?thesis by simp
      qed
    next
      case nohigh: False
      with True have low: "isLowSurrogate (hd t)" by simp
      from deisolate_backward [OF i e' t] obtain ds2 where
        b: "deisolateChar ds i Backward = Inr ds2"
        and bw: "tailw ds2 (Suc i) \<le> tailw ds (Suc i) + 4
           \<or> tailw ds2 (Suc i) \<le> 5 * int (length t) - 4 + tailw ds (Suc i)
                + (if length ds = Suc i then 2 else 0)"
        by blast
      have "repair_entry ds i = Inr ds2"
        using e' t nohigh low b by (simp add: repair_entry_def Let_def)
      moreover have "tailw ds2 (Suc i) < tailw ds i"
        using bw w l1 by (auto split: if_splits)
      ultimately show ?thesis by simp
    qed
  qed
qed

lemma repair_loop_returns: "\<exists>r. repair_loop ds i = Some (Inr r)"
proof (induction "nat (tailw ds i)" arbitrary: ds i rule: less_induct)
  case less
  show ?case
  proof (cases "i < length ds")
    case False
    then show ?thesis by (subst repair_loop.simps) simp
  next
    case True
    from repair_entry_step [OF True] obtain ds' where
      s: "repair_entry ds i = Inr ds'" "tailw ds' (Suc i) < tailw ds i" by blast
    have "nat (tailw ds' (i + 1)) < nat (tailw ds i)"
      using s(2) tailw_nonneg [of ds' "Suc i"] by simp
    from less.hyps [OF this] obtain r where "repair_loop ds' (i + 1) = Some (Inr r)" by blast
    then show ?thesis using True s(1) by (subst repair_loop.simps) simp
  qed
qed

lemma adjust_returns: "\<exists>r. adjustDiffForSurrogatePairs ds = Some (Inr r)"
  using repair_loop_returns [of ds 0] by (auto simp: adjustDiffForSurrogatePairs_def)

text \<open>
  C4. \<open>diff\<close> fails with the null-input error exactly when one of the two texts is
  \<open>null\<close>; for every pair of strings it returns an edit script: the repair loop ends, and
  no read of the array is out of range. (The imported functions are total here: what they
  may raise is outside \<open>diff.ts\<close>.)
\<close>

theorem diff_null_input:
  "(\<exists>e. diff h now textA textB opts = Some (Inl e)) = (textA = None \<or> textB = None)
   \<and> (if textA = None \<or> textB = None then diff h now textA textB opts = Some (Inl NullInput)
      else \<exists>r. diff h now textA textB opts = Some (Inr r))"
proof (cases textA)
  case None
  then show ?thesis by (simp add: diff_def)
next
  case (Some a)
  note A = Some
  show ?thesis
  proof (cases textB)
    case None
    with A show ?thesis by (simp add: diff_def)
  next
    case (Some b)
    from adjust_returns
      [of "internal_diff h a b (createInternalOpts now (given_options opts))"]
    show ?thesis using A Some by (auto simp: diff_def)
  qed
qed

theorem diff_null_input_witness:
  "diff spec_helpers 0 None (Some [0x61]) None = Some (Inl NullInput)
   \<and> diff spec_helpers 0 (Some [0x61]) None None = Some (Inl NullInput)
   \<and> (\<exists>r. diff spec_helpers 0 (Some [0xDE00, 0x61, 0xD83D]) (Some [0x62]) None = Some (Inr r))"
  using diff_null_input [of spec_helpers 0 None "Some [0x61]" None]
    diff_null_input [of spec_helpers 0 "Some [0x61]" None None]
    diff_null_input [of spec_helpers 0 "Some [0xDE00, 0x61, 0xD83D]" "Some [0x62]" None]
  by simp


section \<open>Surrogate pairs at entry boundaries\<close>

subsection \<open>Well-formed texts\<close>

text \<open>
  A well-formed text cut in two: the first part ends with a high surrogate exactly when
  the second starts with a low one. Replacing a code unit by one of the same class keeps
  a text well-formed.
\<close>

lemma starts_low_Nil [simp]: "\<not> starts_low []"
  by (simp add: starts_low_def)

lemma ends_high_Nil [simp]: "\<not> ends_high []"
  by (simp add: ends_high_def)

lemma starts_low_Cons [simp]: "starts_low (c # cs) = isLowSurrogate c"
  by (simp add: starts_low_def)

lemma starts_low_append [simp]: "starts_low (a @ b) = (if a = [] then starts_low b else starts_low a)"
  by (simp add: starts_low_def)

lemma ends_high_append [simp]: "ends_high (a @ b) = (if b = [] then ends_high a else ends_high b)"
  by (simp add: ends_high_def)

lemma ends_high_Cons: "ends_high (c # cs) = (if cs = [] then isHighSurrogate c else ends_high cs)"
  by (simp add: ends_high_def)

lemma wf_append_iff:
  "well_formed16 (a @ b) =
     (if ends_high a then starts_low b \<and> well_formed16 (butlast a) \<and> well_formed16 (tl b)
      else well_formed16 a \<and> well_formed16 b)"
proof (induction a rule: well_formed16.induct)
  case 1
  show ?case by (cases b) (auto simp: low_not_high)
next
  case (2 c cs)
  show ?case
  proof (cases "isHighSurrogate c")
    case True
    show ?thesis
    proof (cases cs)
      case Nil
      with True show ?thesis by (cases b) (auto simp: ends_high_Cons)
    next
      case (Cons k ks)
      with True 2 show ?thesis by (auto simp: ends_high_Cons low_not_high split: if_splits)
    qed
  next
    case False
    with 2 show ?thesis by (cases cs) (auto simp: ends_high_Cons split: if_splits)
  qed
qed

lemma wf_not_starts_low: "well_formed16 b \<Longrightarrow> \<not> starts_low b"
  by (cases b) (auto simp: low_not_high split: if_splits)

lemma wf_not_ends_high: "well_formed16 a \<Longrightarrow> \<not> ends_high a"
  using wf_append_iff [of a "[]"] by (auto split: if_splits)

lemma wf_boundary: "well_formed16 (a @ b) \<Longrightarrow> ends_high a = starts_low b"
  using wf_not_starts_low [of b] by (auto simp: wf_append_iff split: if_splits)

lemma wf_replace:
  "well_formed16 (a @ c # b) \<Longrightarrow> isHighSurrogate c' = isHighSurrogate c
     \<Longrightarrow> isLowSurrogate c' = isLowSurrogate c \<Longrightarrow> well_formed16 (a @ c' # b)"
proof (induction a rule: well_formed16.induct)
  case 1
  then show ?case by simp
next
  case (2 h hs)
  then show ?case by (cases hs) (auto split: if_splits)
qed

subsection \<open>The calls of \<open>deisolateChar\<close> on a script after merge cleanup\<close>

text \<open>
  The search loop and the result of \<open>deisolateChar\<close> where the EQUAL entry at \<open>i\<close> has a
  non-empty DELETE and a non-empty INSERT next to it, or one of them followed by an
  equality.
\<close>

lemma char_at_last: "t \<noteq> [] \<Longrightarrow> char_at t (int (length t) - 1) = Some (last t)"
proof -
  assume t: "t \<noteq> []"
  then have "nat (int (length t) - 1) = length t - 1" by (cases t) simp_all
  then show ?thesis using t by (simp add: char_at_def last_conv_nth)
qed

lemma char_at_first: "t \<noteq> [] \<Longrightarrow> char_at t 0 = Some (hd t)"
  by (cases t) (simp_all add: char_at_def)

lemma combineChar_Forward [simp]: "combineChar t (Some c) Forward = t @ [c]"
  by (simp add: combineChar_def)

lemma combineChar_Backward [simp]: "combineChar t (Some c) Backward = c # t"
  by (simp add: combineChar_def)

lemma nth_after1: "(pre @ a # b # r) ! Suc (length pre) = b"
  by (simp add: nth_append)

lemma nth_after2: "(pre @ a # b # c # r) ! Suc (Suc (length pre)) = c"
  by (simp add: nth_append)

lemma upd_after0: "(pre @ a # r)[length pre := v] = pre @ v # r"
  by simp

lemma upd_after1: "(pre @ a # b # r)[Suc (length pre) := v] = pre @ a # v # r"
  by (simp add: list_update_append)

lemma upd_after2: "(pre @ a # b # c # r)[Suc (Suc (length pre)) := v] = pre @ a # b # v # r"
  by (simp add: list_update_append)

lemmas after_simps = nth_after1 nth_after2 upd_after0 upd_after1 upd_after2

lemma scan_forward_DI:
  assumes "x \<noteq> []" "y \<noteq> []"
  shows "scan (pre @ e # (DELETE, x) # (INSERT, y) # rest) Forward (int (length pre) + 1) None None
           = Stopped (int (length pre) + 3) (Some (Suc (Suc (length pre)))) (Some (Suc (length pre)))"
proof -
  let ?ds = "pre @ e # (DELETE, x) # (INSERT, y) # rest"
  have "scan ?ds Forward (int (length pre) + 1) None None
          = scan ?ds Forward (int (length pre) + 2) None (Some (Suc (length pre)))"
    using assms by (subst scan.simps) (simp add: nat_add_distrib after_simps ac_simps)
  also have "\<dots> = scan ?ds Forward (int (length pre) + 3) (Some (Suc (Suc (length pre)))) (Some (Suc (length pre)))"
    using assms by (subst scan.simps) (simp add: nat_add_distrib after_simps ac_simps)
  also have "\<dots> = Stopped (int (length pre) + 3) (Some (Suc (Suc (length pre)))) (Some (Suc (length pre)))"
    by (subst scan.simps) simp
  finally show ?thesis .
qed

lemma scan_forward_ID:
  assumes "x \<noteq> []" "y \<noteq> []"
  shows "scan (pre @ e # (INSERT, y) # (DELETE, x) # rest) Forward (int (length pre) + 1) None None
           = Stopped (int (length pre) + 3) (Some (Suc (length pre))) (Some (Suc (Suc (length pre))))"
proof -
  let ?ds = "pre @ e # (INSERT, y) # (DELETE, x) # rest"
  have "scan ?ds Forward (int (length pre) + 1) None None
          = scan ?ds Forward (int (length pre) + 2) (Some (Suc (length pre))) None"
    using assms by (subst scan.simps) (simp add: nat_add_distrib after_simps ac_simps)
  also have "\<dots> = scan ?ds Forward (int (length pre) + 3) (Some (Suc (length pre))) (Some (Suc (Suc (length pre))))"
    using assms by (subst scan.simps) (simp add: nat_add_distrib after_simps ac_simps)
  also have "\<dots> = Stopped (int (length pre) + 3) (Some (Suc (length pre))) (Some (Suc (Suc (length pre))))"
    by (subst scan.simps) simp
  finally show ?thesis .
qed

lemma scan_forward_D:
  assumes "x \<noteq> []" "t2 \<noteq> []"
  shows "scan (pre @ e # (DELETE, x) # (EQUAL, t2) # rest) Forward (int (length pre) + 1) None None
           = Stopped (int (length pre) + 2) None (Some (Suc (length pre)))"
proof -
  let ?ds = "pre @ e # (DELETE, x) # (EQUAL, t2) # rest"
  have "scan ?ds Forward (int (length pre) + 1) None None
          = scan ?ds Forward (int (length pre) + 2) None (Some (Suc (length pre)))"
    using assms by (subst scan.simps) (simp add: nat_add_distrib after_simps ac_simps)
  also have "\<dots> = Stopped (int (length pre) + 2) None (Some (Suc (length pre)))"
    using assms by (subst scan.simps) (simp add: nat_add_distrib after_simps ac_simps)
  finally show ?thesis .
qed

lemma scan_forward_I:
  assumes "y \<noteq> []" "t2 \<noteq> []"
  shows "scan (pre @ e # (INSERT, y) # (EQUAL, t2) # rest) Forward (int (length pre) + 1) None None
           = Stopped (int (length pre) + 2) (Some (Suc (length pre))) None"
proof -
  let ?ds = "pre @ e # (INSERT, y) # (EQUAL, t2) # rest"
  have "scan ?ds Forward (int (length pre) + 1) None None
          = scan ?ds Forward (int (length pre) + 2) (Some (Suc (length pre))) None"
    using assms by (subst scan.simps) (simp add: nat_add_distrib after_simps ac_simps)
  also have "\<dots> = Stopped (int (length pre) + 2) (Some (Suc (length pre))) None"
    using assms by (subst scan.simps) (simp add: nat_add_distrib after_simps ac_simps)
  finally show ?thesis .
qed

lemma scan_backward_DI:
  assumes "x \<noteq> []" "y \<noteq> []"
  shows "scan (pre @ (DELETE, x) # (INSERT, y) # e # rest) Backward (int (length pre) + 1) None None
           = Stopped (int (length pre) - 1) (Some (Suc (length pre))) (Some (length pre))"
proof -
  let ?ds = "pre @ (DELETE, x) # (INSERT, y) # e # rest"
  have "scan ?ds Backward (int (length pre) + 1) None None
          = scan ?ds Backward (int (length pre)) (Some (Suc (length pre))) None"
    using assms by (subst scan.simps) (simp add: nat_add_distrib after_simps ac_simps)
  also have "\<dots> = scan ?ds Backward (int (length pre) - 1) (Some (Suc (length pre))) (Some (length pre))"
    using assms by (subst scan.simps) (simp add: nat_add_distrib after_simps ac_simps)
  also have "\<dots> = Stopped (int (length pre) - 1) (Some (Suc (length pre))) (Some (length pre))"
    by (subst scan.simps) simp
  finally show ?thesis .
qed

lemma scan_backward_ID:
  assumes "x \<noteq> []" "y \<noteq> []"
  shows "scan (pre @ (INSERT, y) # (DELETE, x) # e # rest) Backward (int (length pre) + 1) None None
           = Stopped (int (length pre) - 1) (Some (length pre)) (Some (Suc (length pre)))"
proof -
  let ?ds = "pre @ (INSERT, y) # (DELETE, x) # e # rest"
  have "scan ?ds Backward (int (length pre) + 1) None None
          = scan ?ds Backward (int (length pre)) None (Some (Suc (length pre)))"
    using assms by (subst scan.simps) (simp add: nat_add_distrib after_simps ac_simps)
  also have "\<dots> = scan ?ds Backward (int (length pre) - 1) (Some (length pre)) (Some (Suc (length pre)))"
    using assms by (subst scan.simps) (simp add: nat_add_distrib after_simps ac_simps)
  also have "\<dots> = Stopped (int (length pre) - 1) (Some (length pre)) (Some (Suc (length pre)))"
    by (subst scan.simps) simp
  finally show ?thesis .
qed


lemmas deisolate_defs =
  deisolateChar_def both_share_def hasSharedChar_def take_shared_def push_char_def new_entry_def
  get_text_def set_text_def splitChar_Forward splitChar_Backward char_at_last char_at_first

lemma deisolate_forward_DI:
  assumes "t \<noteq> []" "x \<noteq> []" "y \<noteq> []"
  shows "deisolateChar (pre @ (EQUAL, t) # (DELETE, x) # (INSERT, y) # rest) (length pre) Forward =
     Inr (if last y = last x
          then pre @ (EQUAL, t @ [hd y]) # (DELETE, tl x) # (INSERT, tl y) # rest
          else pre @ (EQUAL, butlast t) # (DELETE, last t # x) # (INSERT, last t # y) # rest)"
  using assms by (simp add: deisolate_defs scan_forward_DI after_simps)

lemma deisolate_forward_ID:
  assumes "t \<noteq> []" "x \<noteq> []" "y \<noteq> []"
  shows "deisolateChar (pre @ (EQUAL, t) # (INSERT, y) # (DELETE, x) # rest) (length pre) Forward =
     Inr (if last y = last x
          then pre @ (EQUAL, t @ [hd y]) # (INSERT, tl y) # (DELETE, tl x) # rest
          else pre @ (EQUAL, butlast t) # (INSERT, last t # y) # (DELETE, last t # x) # rest)"
  using assms by (simp add: deisolate_defs scan_forward_ID after_simps)

lemma deisolate_forward_D:
  assumes "t \<noteq> []" "x \<noteq> []" "t2 \<noteq> []"
  shows "deisolateChar (pre @ (EQUAL, t) # (DELETE, x) # (EQUAL, t2) # rest) (length pre) Forward =
     Inr (pre @ (EQUAL, butlast t) # (DELETE, last t # x) # (INSERT, [last t]) # (EQUAL, t2) # rest)"
  using assms by (simp add: deisolate_defs scan_forward_D after_simps splice_insert_def nat_add_distrib)

lemma deisolate_forward_I:
  assumes "t \<noteq> []" "y \<noteq> []" "t2 \<noteq> []"
  shows "deisolateChar (pre @ (EQUAL, t) # (INSERT, y) # (EQUAL, t2) # rest) (length pre) Forward =
     Inr (pre @ (EQUAL, butlast t) # (INSERT, last t # y) # (DELETE, [last t]) # (EQUAL, t2) # rest)"
  using assms by (simp add: deisolate_defs scan_forward_I after_simps splice_insert_def nat_add_distrib)

lemma deisolate_backward_DI:
  assumes "t \<noteq> []" "x \<noteq> []" "y \<noteq> []"
  shows "deisolateChar (pre @ (DELETE, x) # (INSERT, y) # (EQUAL, t) # rest) (Suc (Suc (length pre))) Backward =
     Inr (if hd y = hd x
          then pre @ (DELETE, butlast x) # (INSERT, butlast y) # (EQUAL, last y # t) # rest
          else pre @ (DELETE, x @ [hd t]) # (INSERT, y @ [hd t]) # (EQUAL, tl t) # rest)"
  using assms scan_backward_DI [of x y pre "(EQUAL, t)" rest]
  by (simp add: deisolate_defs after_simps ac_simps)

lemma deisolate_backward_ID:
  assumes "t \<noteq> []" "x \<noteq> []" "y \<noteq> []"
  shows "deisolateChar (pre @ (INSERT, y) # (DELETE, x) # (EQUAL, t) # rest) (Suc (Suc (length pre))) Backward =
     Inr (if hd y = hd x
          then pre @ (INSERT, butlast y) # (DELETE, butlast x) # (EQUAL, last y # t) # rest
          else pre @ (INSERT, y @ [hd t]) # (DELETE, x @ [hd t]) # (EQUAL, tl t) # rest)"
  using assms scan_backward_ID [of x y pre "(EQUAL, t)" rest]
  by (simp add: deisolate_defs after_simps ac_simps)

subsection \<open>Scripts after merge cleanup\<close>

lemma two_sided_iff:
  "two_sided run =
     (\<exists>x y. x \<noteq> [] \<and> y \<noteq> []
        \<and> (run = [(DELETE, x), (INSERT, y)] \<or> run = [(INSERT, y), (DELETE, x)]))"
  by (cases run rule: two_sided.cases) auto

lemma text1_Nil [simp]: "text1 [] = []"
  by (simp add: text1_def)

lemma text2_Nil [simp]: "text2 [] = []"
  by (simp add: text2_def)

lemma text1_Cons [simp]: "text1 ((k, x) # ds) = (if k = INSERT then text1 ds else x @ text1 ds)"
  by (cases k) (simp_all add: text1_def)

lemma text2_Cons [simp]: "text2 ((k, x) # ds) = (if k = DELETE then text2 ds else x @ text2 ds)"
  by (cases k) (simp_all add: text2_def)

lemma text1_append [simp]: "text1 (a @ b) = text1 a @ text1 b"
  by (simp add: text1_def)

lemma text2_append [simp]: "text2 (a @ b) = text2 a @ text2 b"
  by (simp add: text2_def)

lemma high_not_low: "isHighSurrogate c \<Longrightarrow> \<not> isLowSurrogate c"
  using low_not_high by blast

lemma butlast_last_Cons: "t \<noteq> [] \<Longrightarrow> butlast t @ last t # x = t @ x"
  by (induction t) simp_all

lemma starts_low_butlast: "ends_high t \<Longrightarrow> starts_low (butlast t) = starts_low t"
  by (cases t) (auto simp: starts_low_def ends_high_def high_not_low split: if_splits)

lemma hd_butlast: "butlast t \<noteq> [] \<Longrightarrow> hd (butlast t) = hd t"
  by (cases t) (auto split: if_splits)

lemma low_high_long: "starts_low y \<Longrightarrow> ends_high y \<Longrightarrow> tl y \<noteq> []"
  by (cases y) (auto simp: starts_low_def ends_high_def high_not_low split: if_splits)

lemma high_low_long: "starts_low y \<Longrightarrow> ends_high y \<Longrightarrow> butlast y \<noteq> []"
  by (cases y) (auto simp: starts_low_def ends_high_def high_not_low split: if_splits)

lemma shaped_after_equal:
  assumes "shaped ((EQUAL, t) # es)"
  obtains (none) "es = []"
    | (one) k x rest where "es = (k, x) # rest" "k \<noteq> EQUAL" "x \<noteq> []"
        "rest = [] \<or> (\<exists>t2 r. rest = (EQUAL, t2) # r \<and> t2 \<noteq> [])" "shaped rest"
    | (two) x y rest where
        "es = (DELETE, x) # (INSERT, y) # rest \<or> es = (INSERT, y) # (DELETE, x) # rest"
        "x \<noteq> []" "y \<noteq> []"
        "rest = [] \<or> (\<exists>t2 r. rest = (EQUAL, t2) # r \<and> t2 \<noteq> [])" "shaped rest"
proof (cases es)
  case Nil
  then show ?thesis using none by simp
next
  case (Cons d ds)
  obtain k x where d: "d = (k, x)" by (cases d)
  have k: "k \<noteq> EQUAL" and sh: "shaped (d # ds)" using assms Cons d by auto
  show ?thesis
  proof (cases ds)
    case Nil
    then show ?thesis using one [of k x "[]"] Cons d k sh by simp
  next
    case ds: (Cons d2 ds2)
    obtain k2 y where d2: "d2 = (k2, y)" by (cases d2)
    have x: "x \<noteq> []" and kk: "k \<noteq> k2" and sh2: "shaped (d2 # ds2)"
      using sh d ds d2 by auto
    show ?thesis
    proof (cases "k2 = EQUAL")
      case True
      have "y \<noteq> []" using sh2 d2 by (cases ds2) auto
      then show ?thesis using one [of k x "d2 # ds2"] Cons d ds d2 k x sh2 True by simp
    next
      case False
      have rest: "ds2 = [] \<or> (\<exists>t2 r. ds2 = (EQUAL, t2) # r \<and> t2 \<noteq> [])"
      proof (cases ds2)
        case Nil
        then show ?thesis by simp
      next
        case c3: (Cons d3 ds3)
        obtain k3 z where d3: "d3 = (k3, z)" by (cases d3)
        have "k3 = EQUAL" using sh d ds d2 c3 d3 k False by simp
        moreover have "shaped (d3 # ds3)" using sh2 c3 by simp
        then have "z \<noteq> []" using d3 by (cases ds3) auto
        ultimately show ?thesis using c3 d3 by simp
      qed
      have y: "y \<noteq> []" using sh2 d2 by (cases ds2) auto
      have sh3: "shaped ds2" using sh2 by (cases ds2) auto
      have "(k = DELETE \<and> k2 = INSERT) \<or> (k = INSERT \<and> k2 = DELETE)"
        using k False kk by (cases k; cases k2) auto
      then show ?thesis
      proof
        assume "k = DELETE \<and> k2 = INSERT"
        then show ?thesis using two [of x y ds2] Cons d ds d2 x y rest sh3 by simp
      next
        assume "k = INSERT \<and> k2 = DELETE"
        then show ?thesis using two [of y x ds2] Cons d ds d2 x y rest sh3 by simp
      qed
    qed
  qed
qed

subsection \<open>One iteration of the first loop\<close>

text \<open>
  The forward call at an EQUAL entry, on a script whose entries from this one on are
  still as merge cleanup left them and whose two texts are well-formed. The call keeps
  both texts well-formed, leaves no entry of the run after the EQUAL entry starting with a
  low surrogate, and where the next equality starts with a low surrogate it leaves a
  non-empty DELETE and a non-empty INSERT before it.
\<close>

lemma wf_after: "well_formed16 (A @ t @ B) \<Longrightarrow> t \<noteq> [] \<Longrightarrow> starts_low B = ends_high t"
  using wf_boundary [of "A @ t" B] by simp

lemma wf_after2:
  "well_formed16 (A @ t @ x @ B) \<Longrightarrow> x \<noteq> [] \<Longrightarrow> starts_low B = ends_high x"
  using wf_boundary [of "A @ t @ x" B] by simp

lemma wf_at_end: "well_formed16 (A @ t) \<Longrightarrow> t \<noteq> [] \<Longrightarrow> \<not> ends_high t"
  using wf_not_ends_high [of "A @ t"] by simp

lemma hd_butlast_low: "starts_low t \<Longrightarrow> ends_high t \<Longrightarrow> hd (butlast t) = hd t"
  using high_low_long [of t] hd_butlast [of t] by simp

lemma hd_tl_append: "x \<noteq> [] \<Longrightarrow> hd x # tl x @ B = x @ B"
  by (cases x) simp_all

lemma forward_phase:
  assumes sh: "shaped ((EQUAL, t) # es)"
    and wf1: "well_formed16 (A1 @ t @ text1 es)"
    and wf2: "well_formed16 (A2 @ t @ text2 es)"
  shows "\<exists>t' run rest.
     (if ends_high t then deisolateChar (pre @ (EQUAL, t) # es) (length pre) Forward
      else Inr (pre @ (EQUAL, t) # es)) = Inr (pre @ (EQUAL, t') # run @ rest)
     \<and> well_formed16 (A1 @ t' @ text1 (run @ rest))
     \<and> well_formed16 (A2 @ t' @ text2 (run @ rest))
     \<and> list_all (\<lambda>d. fst d \<noteq> EQUAL \<and> \<not> starts_low (snd d)) run
     \<and> (rest \<noteq> [] \<and> starts_low (snd (hd rest)) \<longrightarrow> two_sided run)
     \<and> shaped rest \<and> (rest \<noteq> [] \<longrightarrow> fst (hd rest) = EQUAL) \<and> length rest \<le> length es
     \<and> starts_low t' = starts_low t \<and> (starts_low t \<longrightarrow> hd t' = hd t)"
    (is "\<exists>t' run rest. ?P t' run rest")
proof -
  have t: "t \<noteq> []" using sh by (cases es) auto
  from sh show ?thesis
  proof (cases rule: shaped_after_equal)
    case none
    have "\<not> ends_high t" using wf1 none t wf_at_end [of A1 t] by simp
    then have "?P t [] []" using none wf1 wf2 by simp
    then show ?thesis by blast
  next
    case (one k x rest)
    have kk: "k = DELETE \<or> k = INSERT" using one(2) by (cases k) auto
    have sx1: "k = DELETE \<Longrightarrow> starts_low x = ends_high t"
      using wf_after [OF wf1 t] one(1,3) by simp
    have sx2: "k = INSERT \<Longrightarrow> starts_low x = ends_high t"
      using wf_after [OF wf2 t] one(1,3) by simp
    have nxt1: "k = INSERT \<Longrightarrow> starts_low (text1 rest) = ends_high t"
      using wf_after [OF wf1 t] one(1) by simp
    have nxt2: "k = DELETE \<Longrightarrow> starts_low (text2 rest) = ends_high t"
      using wf_after [OF wf2 t] one(1) by simp
    show ?thesis
    proof (cases "ends_high t")
      case False
      have "?P t [(k, x)] rest"
        using False one kk wf1 wf2 sx1 sx2 nxt1 nxt2 by auto
      then show ?thesis by blast
    next
      case True
      then obtain t2 r where rest: "rest = (EQUAL, t2) # r" "t2 \<noteq> []"
        using one(4) kk nxt1 nxt2 by auto
      have hi: "isHighSurrogate (last t)" using True by (simp add: ends_high_def)
      from kk show ?thesis
      proof
        assume k: "k = DELETE"
        have "?P (butlast t) [(DELETE, last t # x), (INSERT, [last t])] rest"
          using True one k rest wf1 wf2 t hi deisolate_forward_D [OF t one(3) rest(2), of pre r]
          by (auto simp: butlast_last_Cons high_not_low two_sided_iff starts_low_butlast
                hd_butlast_low)
        then show ?thesis by blast
      next
        assume k: "k = INSERT"
        have "?P (butlast t) [(INSERT, last t # x), (DELETE, [last t])] rest"
          using True one k rest wf1 wf2 t hi deisolate_forward_I [OF t one(3) rest(2), of pre r]
          by (auto simp: butlast_last_Cons high_not_low two_sided_iff starts_low_butlast
                hd_butlast_low)
        then show ?thesis by blast
      qed
    qed
  next
    case (two x y rest)
    have sx: "starts_low x = ends_high t" using wf_after [OF wf1 t] two(1,2) by auto
    have sy: "starts_low y = ends_high t" using wf_after [OF wf2 t] two(1,3) by auto
    have v1: "text1 es = x @ text1 rest" and v2: "text2 es = y @ text2 rest"
      using two(1) by auto
    have ex: "starts_low (text1 rest) = ends_high x"
      using wf_after2 [of A1 t x "text1 rest"] wf1 v1 two(2) by simp
    have ey: "starts_low (text2 rest) = ends_high y"
      using wf_after2 [of A2 t y "text2 rest"] wf2 v2 two(3) by simp
    have hdrest: "rest \<noteq> [] \<Longrightarrow> fst (hd rest) = EQUAL" using two(4) by auto
    have len: "length rest \<le> length es" using two(1) by auto
    define X where "X = (if es = (DELETE, x) # (INSERT, y) # rest then DELETE else INSERT)"
    define Y where "Y = (if es = (DELETE, x) # (INSERT, y) # rest then INSERT else DELETE)"
    define u where "u = (if es = (DELETE, x) # (INSERT, y) # rest then x else y)"
    define v where "v = (if es = (DELETE, x) # (INSERT, y) # rest then y else x)"
    have es: "es = (X, u) # (Y, v) # rest" using two(1) by (auto simp: X_def Y_def u_def v_def)
    have XY: "(X = DELETE \<and> Y = INSERT \<and> u = x \<and> v = y) \<or> (X = INSERT \<and> Y = DELETE \<and> u = y \<and> v = x)"
      using two(1) by (auto simp: X_def Y_def u_def v_def)
    show ?thesis
    proof (cases "ends_high t")
      case False
      have "?P t [(X, u), (Y, v)] rest"
        using False es XY wf1 wf2 sx sy two(2,3,5) hdrest len by (auto simp: two_sided_iff)
      then show ?thesis by blast
    next
      case True
      have hi: "isHighSurrogate (last t)" using True by (simp add: ends_high_def)
      have lx: "isLowSurrogate (hd x)" and ly: "isLowSurrogate (hd y)"
        using sx sy True by (simp_all add: starts_low_def)
      show ?thesis
      proof (cases "last y = last x")
        case shared: True
        have r: "deisolateChar (pre @ (EQUAL, t) # es) (length pre) Forward
                   = Inr (pre @ (EQUAL, t @ [hd y]) # [(X, tl u), (Y, tl v)] @ rest)"
          using XY es shared deisolate_forward_DI [OF t two(2,3), of pre rest]
            deisolate_forward_ID [OF t two(2,3), of pre rest] by auto
        have "well_formed16 ((A1 @ t) @ hd x # (tl x @ text1 rest))"
          using wf1 v1 two(2) by (simp add: hd_tl_append)
        then have "well_formed16 ((A1 @ t) @ hd y # (tl x @ text1 rest))"
          by (rule wf_replace) (use lx ly low_not_high in auto)
        then have n1: "well_formed16 (A1 @ (t @ [hd y]) @ tl x @ text1 rest)" by simp
        have n2: "well_formed16 (A2 @ (t @ [hd y]) @ tl y @ text2 rest)"
          using wf2 v2 two(3) by (simp add: hd_tl_append)
        have cx: "\<not> starts_low (tl x)"
          using wf_boundary [of "A1 @ t @ [hd y]" "tl x @ text1 rest"] n1 ly low_not_high
          by (auto simp: ends_high_def split: if_splits)
        have cy: "\<not> starts_low (tl y)"
          using wf_boundary [of "A2 @ t @ [hd y]" "tl y @ text2 rest"] n2 ly low_not_high
          by (auto simp: ends_high_def split: if_splits)
        have pend: "two_sided [(X, tl u), (Y, tl v)]" if ne: "rest \<noteq> []" and lo: "starts_low (snd (hd rest))"
        proof -
          obtain t2 r where rest: "rest = (EQUAL, t2) # r" "t2 \<noteq> []" using two(4) ne by auto
          have "starts_low t2" using lo rest by simp
          then have "ends_high x" "ends_high y" using ex ey rest by auto
          then have "tl x \<noteq> []" "tl y \<noteq> []" using sx sy True low_high_long by auto
          then show ?thesis using XY by (auto simp: two_sided_iff)
        qed
        have "?P (t @ [hd y]) [(X, tl u), (Y, tl v)] rest"
          using True r n1 n2 cx cy pend XY two(5) hdrest t len by auto
        then show ?thesis by blast
      next
        case False
        have r: "deisolateChar (pre @ (EQUAL, t) # es) (length pre) Forward
                   = Inr (pre @ (EQUAL, butlast t) # [(X, last t # u), (Y, last t # v)] @ rest)"
          using XY es False deisolate_forward_DI [OF t two(2,3), of pre rest]
            deisolate_forward_ID [OF t two(2,3), of pre rest] by auto
        have "?P (butlast t) [(X, last t # u), (Y, last t # v)] rest"
          using True r XY wf1 wf2 v1 v2 t hi two(5) hdrest len
          by (auto simp: butlast_last_Cons high_not_low two_sided_iff starts_low_butlast
                hd_butlast_low)
        then show ?thesis by blast
      qed
    qed
  qed
qed

text \<open>
  The backward call, at an EQUAL entry that starts with a low surrogate and has a
  non-empty DELETE and a non-empty INSERT before it.
\<close>

lemma starts_low_butlast_clean: "\<not> starts_low x \<Longrightarrow> \<not> starts_low (butlast x)"
  by (cases x) (auto simp: starts_low_def split: if_splits)

lemma backward_phase:
  assumes pend: "starts_low t \<Longrightarrow> \<exists>pre0 run. AR = pre0 @ run \<and> two_sided run"
    and wf1: "well_formed16 (text1 AR @ t' @ B1)"
    and wf2: "well_formed16 (text2 AR @ t' @ B2)"
    and clean: "list_all (\<lambda>d. \<not> starts_low (snd d)) AR"
    and st: "starts_low t' = starts_low t"
  shows "\<exists>AR'.
     (if starts_low t then deisolateChar (AR @ (EQUAL, t') # post) (length AR) Backward
      else Inr (AR @ (EQUAL, t') # post)) = Inr (AR' @ post)
     \<and> length AR' = Suc (length AR)
     \<and> well_formed16 (text1 AR' @ B1) \<and> well_formed16 (text2 AR' @ B2)
     \<and> list_all (\<lambda>d. \<not> starts_low (snd d)) AR'"
    (is "\<exists>AR'. ?P AR'")
proof (cases "starts_low t")
  case False
  then have "?P (AR @ [(EQUAL, t')])" using wf1 wf2 clean st by simp
  then show ?thesis by blast
next
  case True
  have t': "t' \<noteq> []" and lo: "isLowSurrogate (hd t')"
    using True st by (auto simp: starts_low_def)
  obtain pre0 x y X Y u v where AR: "AR = pre0 @ [(X, u), (Y, v)]" and x: "x \<noteq> []" and y: "y \<noteq> []"
    and XY: "(X = DELETE \<and> Y = INSERT \<and> u = x \<and> v = y) \<or> (X = INSERT \<and> Y = DELETE \<and> u = y \<and> v = x)"
    using pend [OF True] unfolding two_sided_iff by blast
  have v1: "text1 AR = text1 pre0 @ x" and v2: "text2 AR = text2 pre0 @ y"
    using AR XY by auto
  have hx: "ends_high x"
    using wf_boundary [of "text1 pre0 @ x" "t' @ B1"] wf1 v1 x t' True st by simp
  have hy: "ends_high y"
    using wf_boundary [of "text2 pre0 @ y" "t' @ B2"] wf2 v2 y t' True st by simp
  have cx: "\<not> starts_low x" and cy: "\<not> starts_low y" and c0: "list_all (\<lambda>d. \<not> starts_low (snd d)) pre0"
    using clean AR XY by auto
  have len: "length AR = Suc (Suc (length pre0))" using AR by simp
  show ?thesis
  proof (cases "hd y = hd x")
    case shared: True
    have r: "deisolateChar (AR @ (EQUAL, t') # post) (length AR) Backward
               = Inr ((pre0 @ [(X, butlast u), (Y, butlast v), (EQUAL, last y # t')]) @ post)"
      using XY AR len shared deisolate_backward_DI [OF t' x y, of pre0 post]
        deisolate_backward_ID [OF t' x y, of pre0 post] by auto
    have "well_formed16 ((text1 pre0 @ butlast x) @ last x # (t' @ B1))"
      using wf1 v1 x by (simp add: butlast_last_Cons)
    then have "well_formed16 ((text1 pre0 @ butlast x) @ last y # (t' @ B1))"
      by (rule wf_replace) (use hx hy high_not_low in \<open>auto simp: ends_high_def\<close>)
    then have n1: "well_formed16 (text1 pre0 @ butlast x @ (last y # t') @ B1)" by simp
    have n2: "well_formed16 (text2 pre0 @ butlast y @ (last y # t') @ B2)"
      using wf2 v2 y by (simp add: butlast_last_Cons)
    have "?P (pre0 @ [(X, butlast u), (Y, butlast v), (EQUAL, last y # t')])"
      using True r n1 n2 XY len c0 cx cy hy high_not_low
      by (auto simp: starts_low_butlast_clean ends_high_def)
    then show ?thesis by blast
  next
    case False
    have r: "deisolateChar (AR @ (EQUAL, t') # post) (length AR) Backward
               = Inr ((pre0 @ [(X, u @ [hd t']), (Y, v @ [hd t']), (EQUAL, tl t')]) @ post)"
      using XY AR len False deisolate_backward_DI [OF t' x y, of pre0 post]
        deisolate_backward_ID [OF t' x y, of pre0 post] by auto
    have n1: "well_formed16 (text1 pre0 @ (x @ [hd t']) @ tl t' @ B1)"
      using wf1 v1 t' by (simp add: hd_tl_append)
    have n2: "well_formed16 (text2 pre0 @ (y @ [hd t']) @ tl t' @ B2)"
      using wf2 v2 t' by (simp add: hd_tl_append)
    have ct: "\<not> starts_low (tl t')"
      using wf_boundary [of "text1 pre0 @ x @ [hd t']" "tl t' @ B1"] n1 lo low_not_high
      by (auto simp: ends_high_def split: if_splits)
    have "?P (pre0 @ [(X, u @ [hd t']), (Y, v @ [hd t']), (EQUAL, tl t')])"
      using True r n1 n2 XY len c0 cx cy ct x y by auto
    then show ?thesis by blast
  qed
qed

subsection \<open>The first loop\<close>

lemma repair_entry_equal:
  "t \<noteq> [] \<Longrightarrow> repair_entry (AR @ (EQUAL, t) # es) (length AR) =
     bind (if ends_high t then deisolateChar (AR @ (EQUAL, t) # es) (length AR) Forward
           else Inr (AR @ (EQUAL, t) # es))
       (\<lambda>ds1. if starts_low t then deisolateChar ds1 (length AR) Backward else Inr ds1)"
  by (simp add: repair_entry_def ends_high_def starts_low_def)

lemma repair_entry_edit:
  "fst d \<noteq> EQUAL \<Longrightarrow> repair_entry (A @ d # es) (length A) = Inr (A @ d # es)"
  by (cases d) (simp add: repair_entry_def)

lemma repair_loop_skip:
  "list_all (\<lambda>d. fst d \<noteq> EQUAL) run
     \<Longrightarrow> repair_loop (A @ run @ rest) (length A) = repair_loop (A @ run @ rest) (length A + length run)"
proof (induction run arbitrary: A)
  case Nil
  then show ?case by simp
next
  case (Cons d run)
  have "repair_loop (A @ (d # run) @ rest) (length A)
          = repair_loop ((A @ [d]) @ run @ rest) (length (A @ [d]))"
    using Cons.prems by (subst repair_loop.simps) (simp add: repair_entry_edit)
  also have "\<dots> = repair_loop ((A @ [d]) @ run @ rest) (length (A @ [d]) + length run)"
    using Cons.prems by (intro Cons.IH) simp
  finally show ?case by simp
qed

lemma repair_entry_whole:
  assumes wf1: "well_formed16 (text1 (AR @ (EQUAL, t) # es))"
    and wf2: "well_formed16 (text2 (AR @ (EQUAL, t) # es))"
    and clean: "list_all (\<lambda>d. \<not> starts_low (snd d)) AR"
    and pend: "starts_low t \<Longrightarrow> \<exists>pre0 run. AR = pre0 @ run \<and> two_sided run"
    and sh: "shaped ((EQUAL, t) # es)"
  shows "\<exists>AR' run rest.
     repair_entry (AR @ (EQUAL, t) # es) (length AR) = Inr (AR' @ run @ rest)
     \<and> length AR' = Suc (length AR)
     \<and> well_formed16 (text1 (AR' @ run @ rest)) \<and> well_formed16 (text2 (AR' @ run @ rest))
     \<and> list_all (\<lambda>d. \<not> starts_low (snd d)) (AR' @ run)
     \<and> list_all (\<lambda>d. fst d \<noteq> EQUAL) run
     \<and> (rest \<noteq> [] \<and> starts_low (snd (hd rest)) \<longrightarrow> two_sided run)
     \<and> shaped rest \<and> (rest \<noteq> [] \<longrightarrow> fst (hd rest) = EQUAL) \<and> length rest \<le> length es"
proof -
  have t: "t \<noteq> []" using sh by (cases es) auto
  have w1: "well_formed16 (text1 AR @ t @ text1 es)" and w2: "well_formed16 (text2 AR @ t @ text2 es)"
    using wf1 wf2 by simp_all
  from forward_phase [OF sh w1 w2, of AR]
  obtain t' run rest where
    f: "(if ends_high t then deisolateChar (AR @ (EQUAL, t) # es) (length AR) Forward
         else Inr (AR @ (EQUAL, t) # es)) = Inr (AR @ (EQUAL, t') # run @ rest)"
    and n1: "well_formed16 (text1 AR @ t' @ text1 (run @ rest))"
    and n2: "well_formed16 (text2 AR @ t' @ text2 (run @ rest))"
    and cr: "list_all (\<lambda>d. fst d \<noteq> EQUAL \<and> \<not> starts_low (snd d)) run"
    and pr: "rest \<noteq> [] \<and> starts_low (snd (hd rest)) \<longrightarrow> two_sided run"
    and rest: "shaped rest" "rest \<noteq> [] \<longrightarrow> fst (hd rest) = EQUAL" "length rest \<le> length es"
    and st: "starts_low t' = starts_low t"
    by blast
  from backward_phase [OF pend n1 n2 clean st, of "run @ rest"]
  obtain AR' where
    b: "(if starts_low t then deisolateChar (AR @ (EQUAL, t') # run @ rest) (length AR) Backward
         else Inr (AR @ (EQUAL, t') # run @ rest)) = Inr (AR' @ run @ rest)"
    and len: "length AR' = Suc (length AR)"
    and m1: "well_formed16 (text1 AR' @ text1 (run @ rest))"
    and m2: "well_formed16 (text2 AR' @ text2 (run @ rest))"
    and ca: "list_all (\<lambda>d. \<not> starts_low (snd d)) AR'"
    by blast
  have "repair_entry (AR @ (EQUAL, t) # es) (length AR) = Inr (AR' @ run @ rest)"
    using f b by (simp add: repair_entry_equal [OF t])
  moreover have "list_all (\<lambda>d. \<not> starts_low (snd d)) (AR' @ run)"
    using ca cr by (auto simp: list_all_iff)
  moreover have "list_all (\<lambda>d. fst d \<noteq> EQUAL) run" using cr by (auto simp: list_all_iff)
  ultimately show ?thesis using len m1 m2 pr rest by (intro exI [of _ AR'] exI [of _ run] exI [of _ rest]) simp
qed

lemma repair_loop_whole:
  assumes "well_formed16 (text1 (AR @ rest))" "well_formed16 (text2 (AR @ rest))"
    and "list_all (\<lambda>d. \<not> starts_low (snd d)) AR"
    and "rest \<noteq> [] \<and> starts_low (snd (hd rest)) \<longrightarrow> (\<exists>pre0 run. AR = pre0 @ run \<and> two_sided run)"
    and "shaped rest" "rest \<noteq> [] \<longrightarrow> fst (hd rest) = EQUAL"
  shows "\<exists>r. repair_loop (AR @ rest) (length AR) = Some (Inr r)
           \<and> well_formed16 (text1 r) \<and> well_formed16 (text2 r)
           \<and> list_all (\<lambda>d. \<not> starts_low (snd d)) r"
  using assms
proof (induction "length rest" arbitrary: AR rest rule: less_induct)
  case less
  show ?case
  proof (cases rest)
    case Nil
    then show ?thesis using less.prems by (subst repair_loop.simps) simp
  next
    case (Cons e es)
    obtain t where e: "e = (EQUAL, t)" using less.prems(6) Cons by (cases e) auto
    have pend: "starts_low t \<Longrightarrow> \<exists>pre0 run. AR = pre0 @ run \<and> two_sided run"
      using less.prems(4) Cons e by simp
    from repair_entry_whole [where AR = AR and t = t and es = es, OF _ _ less.prems(3) pend]
      less.prems(1,2,5) Cons e
    obtain AR' run rest' where
      r: "repair_entry (AR @ (EQUAL, t) # es) (length AR) = Inr (AR' @ run @ rest')"
      and len: "length AR' = Suc (length AR)"
      and w: "well_formed16 (text1 (AR' @ run @ rest'))" "well_formed16 (text2 (AR' @ run @ rest'))"
      and c: "list_all (\<lambda>d. \<not> starts_low (snd d)) (AR' @ run)"
      and ne: "list_all (\<lambda>d. fst d \<noteq> EQUAL) run"
      and p: "rest' \<noteq> [] \<and> starts_low (snd (hd rest')) \<longrightarrow> two_sided run"
      and s: "shaped rest'" "rest' \<noteq> [] \<longrightarrow> fst (hd rest') = EQUAL" "length rest' \<le> length es"
      by blast
    have "repair_loop (AR @ rest) (length AR) = repair_loop (AR' @ run @ rest') (length AR')"
      using r len Cons e by (subst repair_loop.simps) simp
    also have "\<dots> = repair_loop ((AR' @ run) @ rest') (length (AR' @ run))"
      using repair_loop_skip [OF ne, of AR' rest'] by simp
    finally have eq: "repair_loop (AR @ rest) (length AR)
                        = repair_loop ((AR' @ run) @ rest') (length (AR' @ run))" .
    have "length rest' < length rest" using s(3) Cons by simp
    moreover have "rest' \<noteq> [] \<and> starts_low (snd (hd rest'))
                     \<longrightarrow> (\<exists>pre0 run'. AR' @ run = pre0 @ run' \<and> two_sided run')"
      using p by blast
    ultimately show ?thesis
      using less.hyps [of rest' "AR' @ run"] w c s(1,2) eq by simp
  qed
qed

subsection \<open>The whole repair\<close>

lemma edit_runs_Cons:
  "\<exists>r rs. edit_runs ds = r # rs
     \<and> (\<forall>d. fst d \<noteq> EQUAL \<longrightarrow> edit_runs (d # ds) = (d # r) # rs)"
proof (cases "edit_runs ds")
  case Nil
  then show ?thesis using edit_runs_nonempty by blast
next
  case (Cons r rs)
  then show ?thesis by simp
qed

lemma grouped_tail:
  assumes "grouped (d # ds)"
  shows "grouped ds"
proof (cases "fst d = EQUAL")
  case True
  then show ?thesis using assms by (simp add: grouped_def)
next
  case False
  obtain r rs where r: "edit_runs ds = r # rs" "edit_runs (d # ds) = (d # r) # rs"
    using edit_runs_Cons [of ds] False by blast
  have "run_grouped (d # r)" "list_all run_grouped rs"
    using assms r(2) by (simp_all add: grouped_def)
  moreover have "run_grouped (d # r) \<Longrightarrow> run_grouped r"
    by (simp add: run_grouped_def split: if_splits)
  ultimately show ?thesis using r(1) by (simp add: grouped_def)
qed

lemma grouped_three:
  assumes "grouped (d # e # f # fs)" "fst d \<noteq> EQUAL" "fst e \<noteq> EQUAL"
  shows "fst f = EQUAL"
proof (rule ccontr)
  assume f: "fst f \<noteq> EQUAL"
  obtain r rs where r: "edit_runs fs = r # rs" using edit_runs_Cons [of fs] by blast
  have "edit_runs (d # e # f # fs) = (d # e # f # r) # rs"
    using assms(2,3) f r by simp
  then have "run_grouped (d # e # f # r)" using assms(1) by (simp add: grouped_def)
  then show False
    using assms(2,3) f by (cases "fst d"; cases "fst e"; cases "fst f") (auto simp: run_grouped_def)
qed

lemma merge_clean_tail: "merge_clean (d # ds) \<Longrightarrow> merge_clean ds"
  by (cases ds) (simp_all add: merge_clean_def no_empty_def)

lemma merge_clean_shaped: "merge_clean ds \<Longrightarrow> grouped ds \<Longrightarrow> shaped ds"
proof (induction ds rule: shaped.induct)
  case 1
  show ?case by simp
next
  case (2 d)
  then show ?case by (simp add: merge_clean_def no_empty_def)
next
  case (3 d e ds)
  have tail: "shaped (e # ds)"
    using "3.IH" merge_clean_tail [OF "3.prems"(1)] grouped_tail [OF "3.prems"(2)] by blast
  have d: "snd d \<noteq> []" and de: "fst d \<noteq> fst e"
    using "3.prems"(1) by (simp_all add: merge_clean_def no_empty_def)
  show ?case
  proof (cases ds)
    case Nil
    then show ?thesis using tail d de by simp
  next
    case (Cons f fs)
    have "fst f = EQUAL" if "fst d \<noteq> EQUAL" "fst e \<noteq> EQUAL"
      using grouped_three [of d e f fs] "3.prems"(2) Cons that by simp
    then show ?thesis using tail d de Cons by simp
  qed
qed

lemma clean_texts:
  "list_all (\<lambda>d. \<not> starts_low (snd d)) ds \<Longrightarrow> \<not> starts_low (text1 ds) \<and> \<not> starts_low (text2 ds)"
  by (induction ds) (auto split: if_splits)

lemma clean_ends:
  "well_formed16 (A1 @ text1 ds) \<Longrightarrow> well_formed16 (A2 @ text2 ds)
     \<Longrightarrow> list_all (\<lambda>d. \<not> starts_low (snd d)) ds \<Longrightarrow> list_all (\<lambda>d. \<not> ends_high (snd d)) ds"
proof (induction ds arbitrary: A1 A2)
  case Nil
  then show ?case by simp
next
  case (Cons d ds)
  obtain k x where d: "d = (k, x)" by (cases d)
  have c: "\<not> starts_low (text1 ds)" "\<not> starts_low (text2 ds)"
    using Cons.prems(3) clean_texts [of ds] by auto
  have tl: "list_all (\<lambda>d. \<not> starts_low (snd d)) ds" using Cons.prems(3) by simp
  show ?case
  proof (cases k)
    case DELETE
    have "\<not> ends_high x" using wf_boundary [of "A1 @ x" "text1 ds"] Cons.prems(1) d DELETE c
      by (auto split: if_splits)
    moreover have "list_all (\<lambda>d. \<not> ends_high (snd d)) ds"
      using Cons.IH [of "A1 @ x" A2] Cons.prems(1,2) tl d DELETE by simp
    ultimately show ?thesis using d by simp
  next
    case INSERT
    have "\<not> ends_high x" using wf_boundary [of "A2 @ x" "text2 ds"] Cons.prems(2) d INSERT c
      by (auto split: if_splits)
    moreover have "list_all (\<lambda>d. \<not> ends_high (snd d)) ds"
      using Cons.IH [of A1 "A2 @ x"] Cons.prems(1,2) tl d INSERT by simp
    ultimately show ?thesis using d by simp
  next
    case EQUAL
    have "\<not> ends_high x" using wf_boundary [of "A1 @ x" "text1 ds"] Cons.prems(1) d EQUAL c
      by (auto split: if_splits)
    moreover have "list_all (\<lambda>d. \<not> ends_high (snd d)) ds"
      using Cons.IH [of "A1 @ x" "A2 @ x"] Cons.prems(1,2) tl d EQUAL by simp
    ultimately show ?thesis using d by simp
  qed
qed

lemma clean_whole:
  assumes "well_formed16 (text1 ds)" "well_formed16 (text2 ds)"
    and "list_all (\<lambda>d. \<not> starts_low (snd d)) ds"
  shows "list_all whole_entry ds"
  using clean_ends [of "[]" ds "[]"] assms by (simp add: whole_entry_def list_all_iff)





lemma remove_loop_subset: "set (remove_loop ds i) \<subseteq> set ds"
proof (induction ds i rule: remove_loop.induct)
  case (1 ds i)
  have "set (splice_delete ds i) \<subseteq> set ds"
    using set_take_subset [of i ds] set_drop_subset [of "i + 1" ds]
    by (auto simp: splice_delete_def)
  then show ?case using 1 by (subst remove_loop.simps) auto
qed




lemma leading_run:
  assumes sh: "shaped ((EQUAL, t) # es)"
    and wf1: "well_formed16 (A1 @ t @ text1 es)"
    and wf2: "well_formed16 (A2 @ t @ text2 es)"
    and idle: "\<not> ends_high t"
  shows "\<exists>run rest. es = run @ rest
          \<and> list_all (\<lambda>d. fst d \<noteq> EQUAL \<and> \<not> starts_low (snd d)) run
          \<and> (rest \<noteq> [] \<and> starts_low (snd (hd rest)) \<longrightarrow> two_sided run)
          \<and> shaped rest \<and> (rest \<noteq> [] \<longrightarrow> fst (hd rest) = EQUAL)"
proof -
  from forward_phase [OF sh wf1 wf2, of "[]"]
  obtain t' run rest where
    f: "(if ends_high t then deisolateChar ([] @ (EQUAL, t) # es) (length ([] :: Diff list)) Forward
         else Inr ([] @ (EQUAL, t) # es)) = Inr ([] @ (EQUAL, t') # run @ rest)"
    and cr: "list_all (\<lambda>d. fst d \<noteq> EQUAL \<and> \<not> starts_low (snd d)) run"
    and pr: "rest \<noteq> [] \<and> starts_low (snd (hd rest)) \<longrightarrow> two_sided run"
    and rest: "shaped rest" "rest \<noteq> [] \<longrightarrow> fst (hd rest) = EQUAL"
    by blast
  have "es = run @ rest" using f idle by simp
  then show ?thesis using cr pr rest by blast
qed

lemma repair_loop_start:
  assumes sh: "shaped ds" and wf1: "well_formed16 (text1 ds)" and wf2: "well_formed16 (text2 ds)"
  shows "\<exists>r. repair_loop ds 0 = Some (Inr r) \<and> list_all whole_entry r"
proof -
  have "\<exists>run rest. ds = run @ rest
          \<and> list_all (\<lambda>d. fst d \<noteq> EQUAL \<and> \<not> starts_low (snd d)) run
          \<and> (rest \<noteq> [] \<and> starts_low (snd (hd rest)) \<longrightarrow> two_sided run)
          \<and> shaped rest \<and> (rest \<noteq> [] \<longrightarrow> fst (hd rest) = EQUAL)"
  proof (cases "ds = [] \<or> fst (hd ds) = EQUAL")
    case True
    have two: "two_sided []" if lo: "ds \<noteq> [] \<and> starts_low (snd (hd ds))"
    proof -
      obtain t es where "ds = (EQUAL, t) # es" using True lo by (cases ds) auto
      then have False using wf_not_starts_low [OF wf1] lo by (simp split: if_splits)
      then show ?thesis ..
    qed
    have hd: "fst (hd ds) = EQUAL" if "ds \<noteq> []" using True that by blast
    show ?thesis
    proof (intro exI conjI)
      show "ds = [] @ ds" by simp
      show "list_all (\<lambda>d. fst d \<noteq> EQUAL \<and> \<not> starts_low (snd d)) []" by simp
      show "ds \<noteq> [] \<and> starts_low (snd (hd ds)) \<longrightarrow> two_sided []" using two by blast
      show "shaped ds" by (rule sh)
      show "ds \<noteq> [] \<longrightarrow> fst (hd ds) = EQUAL" using hd by blast
    qed
  next
    case False
    then have s: "shaped ((EQUAL, [0x61]) # ds)" using sh by (cases ds) auto
    have w1: "well_formed16 ([] @ [0x61] @ text1 ds)" and w2: "well_formed16 ([] @ [0x61] @ text2 ds)"
      using wf1 wf2 by (simp_all add: isHighSurrogate_def isLowSurrogate_def)
    have "\<not> ends_high [0x61]" by (simp add: ends_high_def isHighSurrogate_def)
    then show ?thesis by (rule leading_run [OF s w1 w2])
  qed
  then obtain run rest where ds: "ds = run @ rest"
    and c: "list_all (\<lambda>d. fst d \<noteq> EQUAL \<and> \<not> starts_low (snd d)) run"
    and p: "rest \<noteq> [] \<and> starts_low (snd (hd rest)) \<longrightarrow> two_sided run"
    and s: "shaped rest" "rest \<noteq> [] \<longrightarrow> fst (hd rest) = EQUAL"
    by blast
  have ne: "list_all (\<lambda>d. fst d \<noteq> EQUAL) run" and cl: "list_all (\<lambda>d. \<not> starts_low (snd d)) run"
    using c by (auto simp: list_all_iff)
  have skip: "repair_loop ds 0 = repair_loop (run @ rest) (length run)"
    using repair_loop_skip [OF ne, of "[]" rest] ds by simp
  have p': "rest \<noteq> [] \<and> starts_low (snd (hd rest)) \<longrightarrow> (\<exists>pre0 run'. run = pre0 @ run' \<and> two_sided run')"
  proof
    assume "rest \<noteq> [] \<and> starts_low (snd (hd rest))"
    then have "run = [] @ run \<and> two_sided run" using p by simp
    then show "\<exists>pre0 run'. run = pre0 @ run' \<and> two_sided run'" by blast
  qed
  have v1: "well_formed16 (text1 (run @ rest))" and v2: "well_formed16 (text2 (run @ rest))"
    using wf1 wf2 ds by simp_all
  from repair_loop_whole [OF v1 v2 cl p' s]
  obtain r where "repair_loop (run @ rest) (length run) = Some (Inr r)" "well_formed16 (text1 r)"
    "well_formed16 (text2 r)" "list_all (\<lambda>d. \<not> starts_low (snd d)) r"
    by blast
  then show ?thesis using clean_whole [of r] skip by simp
qed




lemma adjust_whole:
  assumes "merge_clean ds" "grouped ds" "well_formed16 (text1 ds)" "well_formed16 (text2 ds)"
  shows "\<exists>r. adjustDiffForSurrogatePairs ds = Some (Inr r) \<and> list_all whole_entry r"
proof -
  obtain r where r: "repair_loop ds 0 = Some (Inr r)" "list_all whole_entry r"
    using repair_loop_start [OF merge_clean_shaped [OF assms(1,2)] assms(3,4)] by blast
  have "list_all whole_entry (remove_loop r 0)"
    using r(2) remove_loop_subset [of r 0] by (auto simp: list_all_iff)
  then show ?thesis using r(1) by (simp add: adjustDiffForSurrogatePairs_def)
qed


text \<open>
  C2, amended. For two well-formed texts, when the script that \<open>_diff\<close> hands to the
  repair is as the specification describes the result of merge cleanup (no empty entry,
  no two adjacent entries of one kind, at most one DELETE and one INSERT between two
  equalities) and reconstructs the two texts, \<open>diff\<close> returns a script, and no entry of it
  has a text that starts with a low surrogate or ends with a high surrogate.
\<close>

theorem diff_keeps_pairs_whole:
  assumes "internal_diff h a b (createInternalOpts now (given_options opts)) = ds"
    and "merge_clean ds" and "grouped ds"
    and "text1 ds = a" and "text2 ds = b"
    and "well_formed16 a" and "well_formed16 b"
  shows "\<exists>r. diff h now (Some a) (Some b) opts = Some (Inr r) \<and> list_all whole_entry r"
  using assms adjust_whole [of ds] by (simp add: diff_def)

text \<open>
  An instance in which the repair has work to do: the texts D83D DE00 and D83D DE01, two
  characters outside the basic plane whose first code units agree. The script before the
  repair is EQUAL D83D, DELETE DE00, INSERT DE01, and \<open>diff\<close> returns DELETE D83D DE00,
  INSERT D83D DE01.
\<close>

lemma merge_pass_split_pair:
  "merge_pass [(EQUAL, [0xD83D]), (DELETE, [0xDE00]), (INSERT, [0xDE01])]
     = [(EQUAL, [0xD83D]), (DELETE, [0xDE00]), (INSERT, [0xDE01])]"
  by (simp add: merge_pass_def drop_empty_def commonPrefix_spec_def commonSuffix_spec_def
      splits_pair_def)

lemma internal_diff_split_pair:
  "internal_diff unit_helpers [0xD83D, 0xDE00] [0xD83D, 0xDE01] options
     = [(EQUAL, [0xD83D]), (DELETE, [0xDE00]), (INSERT, [0xDE01])]"
proof -
  have p: "common_prefix_length [0xD83D, 0xDE00] [0xD83D, 0xDE01 :: char16] = 1"
    by simp
  have s: "commonSuffix_spec [0xDE00] [0xDE01] = 0"
    by (simp add: commonSuffix_spec_def splits_pair_def)
  have sub:
    "substring [0xD83D, 0xDE00 :: char16] 0 1 = [0xD83D]"
    "substring_from [0xD83D, 0xDE00 :: char16] 1 = [0xDE00]"
    "substring_from [0xD83D, 0xDE01 :: char16] 1 = [0xDE01]"
    "substring_from [0xDE00 :: char16] 1 = []"
    "substring [0xDE00 :: char16] 0 1 = [0xDE00]"
    "substring [0xDE01 :: char16] 0 1 = [0xDE01]"
    by (simp_all add: substring_def substring_from_def)
  have c: "compute_spec [0xDE00] [0xDE01] options = [(DELETE, [0xDE00]), (INSERT, [0xDE01])]"
    by (simp add: compute_spec_def)
  have m: "cleanupMerge_spec [(EQUAL, [0xD83D]), (DELETE, [0xDE00]), (INSERT, [0xDE01])]
             = [(EQUAL, [0xD83D]), (DELETE, [0xDE00]), (INSERT, [0xDE01])]"
    by (simp add: cleanupMerge_spec_def merge_pass_split_pair)
  have "internal_diff unit_helpers [0xD83D, 0xDE00] [0xD83D, 0xDE01] options
          = cleanupMerge_spec ((EQUAL, [0xD83D]) # compute_spec [0xDE00] [0xDE01] options)"
    by (simp add: internal_diff_def unit_helpers_def p s sub)
  then show ?thesis by (simp add: c m)
qed

lemma adjust_split_pair:
  "adjustDiffForSurrogatePairs [(EQUAL, [0xD83D]), (DELETE, [0xDE00]), (INSERT, [0xDE01])]
     = Some (Inr [(DELETE, [0xD83D, 0xDE00]), (INSERT, [0xD83D, 0xDE01])])"
proof -
  have "repair_entry ([] @ (EQUAL, [0xD83D]) # [(DELETE, [0xDE00]), (INSERT, [0xDE01])]) (length ([] :: Diff list))
          = Inr [(EQUAL, []), (DELETE, [0xD83D, 0xDE00]), (INSERT, [0xD83D, 0xDE01])]"
    using deisolate_forward_DI [of "[0xD83D]" "[0xDE00]" "[0xDE01]" "[]" "[]"]
    by (subst repair_entry_equal)
       (simp_all add: ends_high_def starts_low_def isHighSurrogate_def isLowSurrogate_def)
  then have 0: "repair_entry [(EQUAL, [0xD83D]), (DELETE, [0xDE00]), (INSERT, [0xDE01])] 0
          = Inr [(EQUAL, []), (DELETE, [0xD83D, 0xDE00]), (INSERT, [0xD83D, 0xDE01])]"
    by simp
  have 1: "repair_entry [(EQUAL, []), (DELETE, [0xD83D, 0xDE00]), (INSERT, [0xD83D, 0xDE01])] (Suc 0)
          = Inr [(EQUAL, []), (DELETE, [0xD83D, 0xDE00]), (INSERT, [0xD83D, 0xDE01])]"
    by (simp add: repair_entry_def)
  have 2: "repair_entry [(EQUAL, []), (DELETE, [0xD83D, 0xDE00]), (INSERT, [0xD83D, 0xDE01])] (Suc (Suc 0))
          = Inr [(EQUAL, []), (DELETE, [0xD83D, 0xDE00]), (INSERT, [0xD83D, 0xDE01])]"
    by (simp add: repair_entry_def)
  have "repair_loop [(EQUAL, [0xD83D]), (DELETE, [0xDE00]), (INSERT, [0xDE01])] 0
          = Some (Inr [(EQUAL, []), (DELETE, [0xD83D, 0xDE00]), (INSERT, [0xD83D, 0xDE01])])"
    by (simp add: repair_loop.simps 0 1 2)
  moreover have "remove_loop [(EQUAL, []), (DELETE, [0xD83D, 0xDE00]), (INSERT, [0xD83D, 0xDE01])] 0
          = [(DELETE, [0xD83D, 0xDE00]), (INSERT, [0xD83D, 0xDE01])]"
    by (simp add: remove_loop.simps splice_delete_def)
  ultimately show ?thesis by (simp add: adjustDiffForSurrogatePairs_def)
qed

theorem diff_keeps_pairs_whole_witness:
  "internal_diff unit_helpers [0xD83D, 0xDE00] [0xD83D, 0xDE01]
      (createInternalOpts 0 (given_options None))
     = [(EQUAL, [0xD83D]), (DELETE, [0xDE00]), (INSERT, [0xDE01])]
   \<and> merge_clean [(EQUAL, [0xD83D]), (DELETE, [0xDE00]), (INSERT, [0xDE01])]
   \<and> grouped [(EQUAL, [0xD83D]), (DELETE, [0xDE00]), (INSERT, [0xDE01])]
   \<and> text1 [(EQUAL, [0xD83D]), (DELETE, [0xDE00]), (INSERT, [0xDE01])] = [0xD83D, 0xDE00]
   \<and> text2 [(EQUAL, [0xD83D]), (DELETE, [0xDE00]), (INSERT, [0xDE01])] = [0xD83D, 0xDE01]
   \<and> well_formed16 [0xD83D, 0xDE00] \<and> well_formed16 [0xD83D, 0xDE01]
   \<and> (\<exists>r. diff unit_helpers 0 (Some [0xD83D, 0xDE00]) (Some [0xD83D, 0xDE01]) None = Some (Inr r)
          \<and> list_all whole_entry r)
   \<and> diff unit_helpers 0 (Some [0xD83D, 0xDE00]) (Some [0xD83D, 0xDE01]) None
       = Some (Inr [(DELETE, [0xD83D, 0xDE00]), (INSERT, [0xD83D, 0xDE01])])"
proof -
  let ?ds = "[(EQUAL, [0xD83D]), (DELETE, [0xDE00]), (INSERT, [0xDE01 :: char16])]"
  have c: "merge_clean ?ds" by (simp add: merge_clean_def no_empty_def)
  have g: "grouped ?ds" by (simp add: grouped_def run_grouped_def)
  have t1: "text1 ?ds = [0xD83D, 0xDE00]" by (simp add: text1_def)
  have t2: "text2 ?ds = [0xD83D, 0xDE01]" by (simp add: text2_def)
  have w1: "well_formed16 [0xD83D, 0xDE00]" by (simp add: isHighSurrogate_def isLowSurrogate_def)
  have w2: "well_formed16 [0xD83D, 0xDE01]" by (simp add: isHighSurrogate_def isLowSurrogate_def)
  have v: "diff unit_helpers 0 (Some [0xD83D, 0xDE00]) (Some [0xD83D, 0xDE01]) None
       = Some (Inr [(DELETE, [0xD83D, 0xDE00]), (INSERT, [0xD83D, 0xDE01])])"
    by (simp add: diff_def internal_diff_split_pair adjust_split_pair)
  have e: "\<exists>r. diff unit_helpers 0 (Some [0xD83D, 0xDE00]) (Some [0xD83D, 0xDE01]) None = Some (Inr r)
          \<and> list_all whole_entry r"
    using diff_keeps_pairs_whole [OF internal_diff_split_pair c g t1 t2 w1 w2] .
  show ?thesis
    using internal_diff_split_pair c g t1 t2 w1 w2 e v by blast
qed

text \<open>
  C2 as stated fails on a text that holds a surrogate without its partner. \<open>diff\<close> of
  D83D DE00 D83D with itself is EQUAL D83D DE00, DELETE D83D, INSERT D83D, whatever the
  imported functions are: the last code unit has no low surrogate after it in either
  text, and the DELETE and the INSERT that the repair makes for it end with it.
\<close>

theorem diff_lone_surrogate_entry:
  "diff spec_helpers 0 (Some [0xD83D, 0xDE00, 0xD83D]) (Some [0xD83D, 0xDE00, 0xD83D]) None
     = Some (Inr [(EQUAL, [0xD83D, 0xDE00]), (DELETE, [0xD83D]), (INSERT, [0xD83D])])
   \<and> \<not> list_all whole_entry [(EQUAL, [0xD83D, 0xDE00]), (DELETE, [0xD83D]), (INSERT, [0xD83D])]"
proof -
  have "adjustDiffForSurrogatePairs [(EQUAL, [0xD83D, 0xDE00, 0xD83D])]
      = Some (Inr [(EQUAL, [0xD83D, 0xDE00]), (DELETE, [0xD83D]), (INSERT, [0xD83D])])"
    by (simp add: adjust_eval)
  then show ?thesis
    by (simp add: diff_def internal_diff_same whole_entry_def ends_high_def isHighSurrogate_def)
qed
end
